theory Spec2Isabelle
  imports
    Main
    "HOL-Library.Word"
    "HOL-Library.Signed_Division"
begin

unbundle bit_operations_syntax

section \<open>Representation\<close>

text \<open>
  The class \<^verbatim>\<open>BigNum\<close> of \<^verbatim>\<open>BigNumCalculator.cpp\<close>: a vector of decimal digits, least
  significant first, and a sign flag. The digits, sums, carries and counters are C++
  \<^verbatim>\<open>int\<close>s; for digit vectors with entries in 0..9 no intermediate result leaves
  \<open>-10..99\<close>, so they are modelled as unbounded integers. C++ \<^verbatim>\<open>/\<close> and \<^verbatim>\<open>%\<close> on
  \<^verbatim>\<open>int\<close> truncate towards zero: they are \<open>sdiv\<close> and \<open>smod\<close>. The argument of the
  constructor from \<^verbatim>\<open>long long\<close> is a 64-bit word.
\<close>

record BigNum =
  digits :: "int list"
  is_negative :: bool

text \<open>The two exceptions the class throws (both \<^verbatim>\<open>runtime_error\<close>, told apart by message).\<close>

datatype error = DivisionByZero | NoInverse

text \<open>
  Outcome of a call: \<open>None\<close> when the call does not return (a loop or a recursion that
  never ends, or a read outside a vector), \<open>Some (Inl e)\<close> when it throws, \<open>Some (Inr v)\<close>
  when it returns \<open>v\<close>.
\<close>

type_synonym 'a res = "(error + 'a) option"

definition rbind :: "'a res \<Rightarrow> ('a \<Rightarrow> 'b res) \<Rightarrow> 'b res" where
  "rbind m f = Option.bind m (\<lambda>r. case r of Inl e \<Rightarrow> Some (Inl e) | Inr v \<Rightarrow> f v)"

definition lift :: "'a option \<Rightarrow> 'a res" where
  "lift m = map_option Inr m"

text \<open>\<^verbatim>\<open>removeLeadingZeros\<close>: pop the most significant digit while it is 0 and not the only one.\<close>

function removeLeadingZeros :: "int list \<Rightarrow> int list" where
  "removeLeadingZeros ds =
     (if length ds > 1 \<and> last ds = 0 then removeLeadingZeros (butlast ds) else ds)"
  by pat_completeness auto
termination
  by (relation "measure length") auto

declare removeLeadingZeros.simps [simp del]

text \<open>The default constructor.\<close>

definition BigNum_default :: BigNum where
  "BigNum_default = \<lparr>digits = [0], is_negative = False\<rparr>"

definition isZero :: "BigNum \<Rightarrow> bool" where
  "isZero a = (length (digits a) = 1 \<and> digits a ! 0 = 0)"

definition isOne :: "BigNum \<Rightarrow> bool" where
  "isOne a = (\<not> is_negative a \<and> length (digits a) = 1 \<and> digits a ! 0 = 1)"

text \<open>\<^verbatim>\<open>operator==\<close> and \<^verbatim>\<open>operator!=\<close>.\<close>

definition operator_eq :: "BigNum \<Rightarrow> BigNum \<Rightarrow> bool" where
  "operator_eq a b = (is_negative a = is_negative b \<and> digits a = digits b)"

definition operator_ne :: "BigNum \<Rightarrow> BigNum \<Rightarrow> bool" where
  "operator_ne a b = (\<not> operator_eq a b)"

text \<open>
  The constructor from a string. The loop runs \<open>i\<close> from the last index down to \<open>start\<close>
  and keeps the characters \<^verbatim>\<open>'0'\<close>..\<^verbatim>\<open>'9'\<close>.
\<close>

definition is_digit_char :: "char \<Rightarrow> bool" where
  "is_digit_char c = (48 \<le> (of_char c :: nat) \<and> (of_char c :: nat) \<le> 57)"

definition BigNum_string :: "string \<Rightarrow> BigNum" where
  "BigNum_string str =
     (if str = [] then \<lparr>digits = [0], is_negative = False\<rparr>
      else
        let neg = (str ! 0 = CHR ''-'');
            start = (if neg then 1 else 0);
            ds = fold (\<lambda>i ds. if is_digit_char (str ! i)
                               then ds @ [int (of_char (str ! i)) - 48] else ds)
                      (rev [start..<length str]) [];
            r = (if ds = [] then \<lparr>digits = [0], is_negative = False\<rparr>
                 else \<lparr>digits = ds, is_negative = neg\<rparr>);
            r = r\<lparr>digits := removeLeadingZeros (digits r)\<rparr>
        in if isZero r then r\<lparr>is_negative := False\<rparr> else r)"

text \<open>
  The constructor from \<^verbatim>\<open>long long\<close>. The argument is a 64-bit word read as a signed
  number; \<^verbatim>\<open>num = -num\<close> is negation of that word, which maps the least value to
  itself. The digit loop only runs on positive values, where nothing wraps.
\<close>

function ll_digits :: "int \<Rightarrow> int list" where
  "ll_digits num = (if num > 0 then (num smod 10) # ll_digits (num sdiv 10) else [])"
  by pat_completeness auto
termination
proof (relation "measure nat")
  fix num :: int
  assume "0 < num"
  then have "num sdiv 10 = num div 10"
    by (simp add: signed_divide_int_def sgn_if)
  with \<open>0 < num\<close> show "(num sdiv 10, num) \<in> measure nat"
    by simp
qed simp

declare ll_digits.simps [simp del]

definition BigNum_ll :: "64 word \<Rightarrow> BigNum" where
  "BigNum_ll n =
     (let neg = (sint n < 0);
          num = (if sint n < 0 then - n else n)
      in if num = 0 then \<lparr>digits = [0], is_negative = False\<rparr>
         else \<lparr>digits = ll_digits (sint num), is_negative = neg\<rparr>)"

section \<open>Comparison, negation, addition and subtraction\<close>

text \<open>Unary minus: flips the sign unless the value \<^verbatim>\<open>isZero\<close>.\<close>

definition operator_neg :: "BigNum \<Rightarrow> BigNum" where
  "operator_neg a = (if \<not> isZero a then a\<lparr>is_negative := \<not> is_negative a\<rparr> else a)"

text \<open>
  The digit loop of \<^verbatim>\<open>operator<\<close>, from index \<open>n - 1\<close> down to 0 (the second argument
  has the same length when the loop is reached).
\<close>

fun lt_loop :: "int list \<Rightarrow> int list \<Rightarrow> nat \<Rightarrow> bool" where
  "lt_loop a b 0 = False"
| "lt_loop a b (Suc i) = (if a ! i \<noteq> b ! i then a ! i < b ! i else lt_loop a b i)"

text \<open>
  \<^verbatim>\<open>operator<\<close> calls itself on the negated operands when both are negative. On two
  negative zeros (which no constructor builds) that recursion never ends, so the function is
  partial.
\<close>

partial_function (option) operator_lt :: "BigNum \<Rightarrow> BigNum \<Rightarrow> bool option" where
  "operator_lt a b =
     (if is_negative a \<noteq> is_negative b then Some (is_negative a)
      else if is_negative a then operator_lt (operator_neg b) (operator_neg a)
      else if length (digits a) \<noteq> length (digits b)
        then Some (length (digits a) < length (digits b))
      else Some (lt_loop (digits a) (digits b) (length (digits a))))"

declare operator_lt.simps [code]

definition operator_le :: "BigNum \<Rightarrow> BigNum \<Rightarrow> bool option" where
  "operator_le a b = Option.bind (operator_lt a b) (\<lambda>l. Some (l \<or> operator_eq a b))"

definition operator_gt :: "BigNum \<Rightarrow> BigNum \<Rightarrow> bool option" where
  "operator_gt a b = Option.bind (operator_le a b) (\<lambda>l. Some (\<not> l))"

definition operator_ge :: "BigNum \<Rightarrow> BigNum \<Rightarrow> bool option" where
  "operator_ge a b = Option.bind (operator_lt a b) (\<lambda>l. Some (\<not> l))"

text \<open>
  The carry loop of \<^verbatim>\<open>operator+\<close>:
  \<^verbatim>\<open>for (i = 0; i < maxSize || carry; i++)\<close>, with the digits pushed so far in \<open>acc\<close>.
\<close>

function add_loop :: "int list \<Rightarrow> int list \<Rightarrow> nat \<Rightarrow> int \<Rightarrow> int list \<Rightarrow> int list" where
  "add_loop a b i carry acc =
     (if i < max (length a) (length b) \<or> carry \<noteq> 0 then
        let sum = carry;
            sum = (if i < length a then sum + a ! i else sum);
            sum = (if i < length b then sum + b ! i else sum)
        in add_loop a b (Suc i) (sum sdiv 10) (acc @ [sum smod 10])
      else acc)"
  by pat_completeness auto
termination
proof (relation "measures [\<lambda>(a, b, i, carry, acc). max (length a) (length b) - i,
                           \<lambda>(a, b, i, carry, acc). nat \<bar>carry\<bar>]")
  fix a b :: "int list" and i :: nat and carry :: int and acc :: "int list"
    and x xa xb :: int
  assume c: "i < max (length a) (length b) \<or> carry \<noteq> 0"
    and x: "x = carry"
    and xa: "xa = (if i < length a then x + a ! i else x)"
    and xb: "xb = (if i < length b then xa + b ! i else xa)"
  show "((a, b, Suc i, xb sdiv 10, acc @ [xb smod 10]), (a, b, i, carry, acc))
        \<in> measures [\<lambda>(a, b, i, carry, acc). max (length a) (length b) - i,
                     \<lambda>(a, b, i, carry, acc). nat \<bar>carry\<bar>]"
  proof (cases "i < max (length a) (length b)")
    case True
    then show ?thesis by auto
  next
    case False
    with c have nz: "carry \<noteq> 0" by simp
    from False x xa xb have "xb = carry" by auto
    moreover have "\<bar>carry sdiv 10\<bar> = \<bar>carry\<bar> div 10"
      using nz by (simp add: signed_divide_int_def abs_mult abs_sgn_eq)
    moreover have "\<bar>carry\<bar> div 10 < \<bar>carry\<bar>"
      using nz by (intro int_div_less_self) simp_all
    moreover have "max (length a) (length b) - Suc i = max (length a) (length b) - i"
      using False by linarith
    ultimately show ?thesis using nz by simp
  qed
qed simp

declare add_loop.simps [simp del]

text \<open>
  The borrow loop of \<^verbatim>\<open>operator-\<close>: \<^verbatim>\<open>for (i = 0; i < digits.size(); i++)\<close>. The state is
  the borrow and the digits pushed so far.
\<close>

definition sub_step :: "int list \<Rightarrow> int list \<Rightarrow> nat \<Rightarrow> int \<times> int list \<Rightarrow> int \<times> int list" where
  "sub_step a b i st =
     (let borrow = fst st; acc = snd st;
          diff = a ! i - borrow;
          diff = (if i < length b then diff - b ! i else diff)
      in if diff < 0 then (1, acc @ [diff + 10]) else (0, acc @ [diff]))"

definition sub_loop :: "int list \<Rightarrow> int list \<Rightarrow> int list" where
  "sub_loop a b = snd (fold (sub_step a b) [0..<length a] (0, []))"

text \<open>
  \<^verbatim>\<open>operator+\<close> and \<^verbatim>\<open>operator-\<close> call each other; they are one function with a flag
  (\<open>True\<close> for subtraction). The mutual recursion does not end on a negative zero.
\<close>

partial_function (option) plus_minus :: "bool \<Rightarrow> BigNum \<Rightarrow> BigNum \<Rightarrow> BigNum option" where
  "plus_minus subtract a b =
     (if \<not> subtract then
        (if is_negative a = is_negative b then
           let result = \<lparr>digits = add_loop (digits a) (digits b) 0 0 [], is_negative = is_negative a\<rparr>;
               result = result\<lparr>digits := removeLeadingZeros (digits result)\<rparr>
           in Some (if isZero result then result\<lparr>is_negative := False\<rparr> else result)
         else if is_negative a then plus_minus True b (operator_neg a)
         else plus_minus True a (operator_neg b))
      else
        (if is_negative a \<noteq> is_negative b then plus_minus False a (operator_neg b)
         else if is_negative a then plus_minus True (operator_neg b) (operator_neg a)
         else Option.bind (operator_lt a b) (\<lambda>less.
           if less then Option.bind (plus_minus True b a) (\<lambda>r. Some (operator_neg r))
           else Some \<lparr>digits = removeLeadingZeros (sub_loop (digits a) (digits b)),
                      is_negative = False\<rparr>)))"

declare plus_minus.simps [code]

definition operator_plus :: "BigNum \<Rightarrow> BigNum \<Rightarrow> BigNum option" where
  "operator_plus a b = plus_minus False a b"

definition operator_minus :: "BigNum \<Rightarrow> BigNum \<Rightarrow> BigNum option" where
  "operator_minus a b = plus_minus True a b"

section \<open>Multiplication\<close>

text \<open>The body of the inner loop of \<^verbatim>\<open>operator*\<close>, three updates of the result vector.\<close>

definition mul_step :: "int list \<Rightarrow> int list \<Rightarrow> nat \<Rightarrow> nat \<Rightarrow> int list \<Rightarrow> int list" where
  "mul_step a b i j r =
     (let r = r[i + j := r ! (i + j) + a ! i * b ! j];
          r = r[i + j + 1 := r ! (i + j + 1) + r ! (i + j) sdiv 10];
          r = r[i + j := r ! (i + j) smod 10]
      in r)"

definition mul_loop :: "int list \<Rightarrow> int list \<Rightarrow> int list" where
  "mul_loop a b =
     fold (\<lambda>i r. fold (\<lambda>j r. mul_step a b i j r) [0..<length b] r) [0..<length a]
          (replicate (length a + length b) 0)"

definition operator_times :: "BigNum \<Rightarrow> BigNum \<Rightarrow> BigNum" where
  "operator_times a b =
     (let result = \<lparr>digits = removeLeadingZeros (mul_loop (digits a) (digits b)),
                    is_negative = (is_negative a \<noteq> is_negative b)\<rparr>
      in if isZero result then result\<lparr>is_negative := False\<rparr> else result)"

section \<open>Division and modulo\<close>

text \<open>
  The inner loop of \<^verbatim>\<open>operator/\<close>:
  \<^verbatim>\<open>while (remainder >= div) { remainder = remainder - div; count++; }\<close>.
\<close>

partial_function (option) div_while :: "BigNum \<Rightarrow> BigNum \<Rightarrow> int \<Rightarrow> (BigNum \<times> int) option" where
  "div_while d remainder count =
     Option.bind (operator_ge remainder d) (\<lambda>c.
       if c then Option.bind (operator_minus remainder d) (\<lambda>r. div_while d r (count + 1))
       else Some (remainder, count))"

declare div_while.simps [code]

text \<open>
  The outer loop, \<^verbatim>\<open>for (i = digits.size() - 1; i >= 0; i--)\<close>; the counter is \<open>i + 1\<close>.
  \<^verbatim>\<open>BigNum(digits[i])\<close> converts the \<^verbatim>\<open>int\<close> digit to \<^verbatim>\<open>long long\<close>.
\<close>

fun div_for :: "int list \<Rightarrow> BigNum \<Rightarrow> nat \<Rightarrow> BigNum \<Rightarrow> BigNum \<Rightarrow> (BigNum \<times> BigNum) option" where
  "div_for ds d 0 quot remainder = Some (quot, remainder)"
| "div_for ds d (Suc i) quot remainder =
     Option.bind (operator_plus (operator_times remainder (BigNum_ll 10))
                                (BigNum_ll (word_of_int (ds ! i)))) (\<lambda>remainder.
     Option.bind (div_while d remainder 0) (\<lambda>(remainder, count).
       div_for ds d i (quot\<lparr>digits := count # digits quot\<rparr>) remainder))"

definition operator_div :: "BigNum \<Rightarrow> BigNum \<Rightarrow> BigNum res" where
  "operator_div a divisor =
     (if isZero divisor then Some (Inl DivisionByZero)
      else if isZero a then Some (Inr (BigNum_ll 0))
      else
        let dividend = a\<lparr>is_negative := False\<rparr>;
            d = divisor\<lparr>is_negative := False\<rparr>
        in Option.bind (operator_lt dividend d) (\<lambda>less.
             if less then Some (Inr (BigNum_ll 0))
             else Option.bind (div_for (digits a) d (length (digits a)) (BigNum_ll 0) (BigNum_ll 0))
               (\<lambda>(quot, remainder).
                  let quot = quot\<lparr>digits := removeLeadingZeros (digits quot)\<rparr>;
                      quot = quot\<lparr>is_negative := (is_negative a \<noteq> is_negative divisor)\<rparr>
                  in Some (Inr (if isZero quot then quot\<lparr>is_negative := False\<rparr>
                                else quot)))))"

definition operator_mod :: "BigNum \<Rightarrow> BigNum \<Rightarrow> BigNum res" where
  "operator_mod a divisor =
     (if isZero divisor then Some (Inl DivisionByZero)
      else rbind (operator_div a divisor) (\<lambda>quot.
           rbind (lift (operator_minus a (operator_times quot divisor))) (\<lambda>remainder.
             if is_negative remainder
             then lift (operator_plus remainder
                          (if is_negative divisor then operator_neg divisor else divisor))
             else Some (Inr remainder))))"

section \<open>Modular arithmetic\<close>

definition addMod :: "BigNum \<Rightarrow> BigNum \<Rightarrow> BigNum \<Rightarrow> BigNum res" where
  "addMod a b m = rbind (lift (operator_plus a b)) (\<lambda>s. operator_mod s m)"

definition mulMod :: "BigNum \<Rightarrow> BigNum \<Rightarrow> BigNum \<Rightarrow> BigNum res" where
  "mulMod a b m = operator_mod (operator_times a b) m"

lemma rbind_mono [partial_function_mono]:
  assumes mf: "mono_option B" and mg: "\<And>y. mono_option (\<lambda>f. C y f)"
  shows "mono_option (\<lambda>f. rbind (B f) (\<lambda>y. C y f))"
  unfolding rbind_def
proof (rule bind_mono [OF mf])
  fix r :: "error + 'c"
  show "mono_option (\<lambda>f. case r of Inl e \<Rightarrow> Some (Inl e) | Inr v \<Rightarrow> C v f)"
    by (cases r) (simp_all add: mg option.const_mono)
qed

text \<open>
  The loop of \<^verbatim>\<open>powMod\<close>. \<^verbatim>\<open>e.digits[0]\<close> on an empty digit vector is a read outside
  the vector.
\<close>

partial_function (option) powMod_loop :: "BigNum \<Rightarrow> BigNum \<Rightarrow> BigNum \<Rightarrow> BigNum \<Rightarrow> BigNum res" where
  "powMod_loop m result base e =
     (if \<not> isZero e then
        (case digits e of
           [] \<Rightarrow> None
         | d0 # _ \<Rightarrow>
             rbind (if d0 AND 1 \<noteq> 0 then mulMod result base m else Some (Inr result)) (\<lambda>result.
             rbind (operator_div e (BigNum_ll 2)) (\<lambda>e.
             rbind (mulMod base base m) (\<lambda>base.
               powMod_loop m result base e))))
      else Some (Inr result))"

declare powMod_loop.simps [code]

definition powMod :: "BigNum \<Rightarrow> BigNum \<Rightarrow> BigNum \<Rightarrow> BigNum res" where
  "powMod a exp m =
     (if isOne m then Some (Inr (BigNum_ll 0))
      else rbind (operator_mod a m) (\<lambda>base. powMod_loop m (BigNum_ll 1) base exp))"

text \<open>
  \<^verbatim>\<open>extendedGCD\<close> returns the gcd and writes \<open>x\<close> and \<open>y\<close> through references (objects
  of the caller other than \<open>a\<close> and \<open>b\<close>); the model returns the triple \<open>(gcd, x, y)\<close>.
\<close>

partial_function (option) extendedGCD :: "BigNum \<Rightarrow> BigNum \<Rightarrow> (BigNum \<times> BigNum \<times> BigNum) res" where
  "extendedGCD a b =
     (if isZero b then Some (Inr (a, BigNum_ll 1, BigNum_ll 0))
      else rbind (operator_mod a b) (\<lambda>r.
           rbind (extendedGCD b r) (\<lambda>(gcd, x1, y1).
           rbind (operator_div a b) (\<lambda>q.
           rbind (lift (operator_minus x1 (operator_times q y1))) (\<lambda>y.
             Some (Inr (gcd, y1, y)))))))"

declare extendedGCD.simps [code]

definition modInverse :: "BigNum \<Rightarrow> BigNum \<Rightarrow> BigNum res" where
  "modInverse a m =
     rbind (operator_mod a m) (\<lambda>am.
     rbind (extendedGCD am m) (\<lambda>(gcd, x, y).
       if \<not> isOne gcd then Some (Inl NoInverse)
       else rbind (operator_mod x m) (\<lambda>result.
              if is_negative result then lift (operator_plus result m)
              else Some (Inr result))))"

section \<open>Rendering\<close>

text \<open>
  \<^verbatim>\<open>toString\<close>: a minus sign when negative and not zero, then the digits from the most
  significant one, each as the character \<^verbatim>\<open>digits[i] + '0'\<close>.
\<close>

definition toString :: "BigNum \<Rightarrow> string" where
  "toString a =
     (if is_negative a \<and> \<not> isZero a then ''-'' else []) @
     map (\<lambda>i. char_of (digits a ! i + 48)) (rev [0..<length (digits a)])"

section \<open>Values and canonical form\<close>

text \<open>The number a digit vector stands for, least significant digit first.\<close>

fun dval :: "int list \<Rightarrow> int" where
  "dval [] = 0"
| "dval (d # ds) = d + 10 * dval ds"

definition val :: "BigNum \<Rightarrow> int" where
  "val a = (if is_negative a then - dval (digits a) else dval (digits a))"

definition good_digits :: "int list \<Rightarrow> bool" where
  "good_digits ds = list_all (\<lambda>d. 0 \<le> d \<and> d \<le> 9) ds"

text \<open>
  A normalised digit vector: at least one digit, every digit in 0..9, and no leading zero
  except for the single digit 0.
\<close>

definition norm_digits :: "int list \<Rightarrow> bool" where
  "norm_digits ds = (ds \<noteq> [] \<and> good_digits ds \<and> (length ds = 1 \<or> last ds \<noteq> 0))"

text \<open>
  Canonical form (the three invariants of the data model): a normalised digit vector and no
  negative zero.
\<close>

definition canonical :: "BigNum \<Rightarrow> bool" where
  "canonical a =
     (digits a \<noteq> [] \<and> good_digits (digits a) \<and>
      (length (digits a) = 1 \<or> last (digits a) \<noteq> 0) \<and>
      \<not> (isZero a \<and> is_negative a))"

section \<open>Loop invariants of the multiplication\<close>

text \<open>
  Before row \<open>i\<close> of \<^verbatim>\<open>operator*\<close>: every cell of the result is a digit, the cells from
  \<open>i + length b\<close> on are still 0, and the result holds the product of the first \<open>i\<close>
  digits of \<open>a\<close> with \<open>b\<close>.
\<close>

definition mul_row_inv :: "int list \<Rightarrow> int list \<Rightarrow> nat \<Rightarrow> int list \<Rightarrow> bool" where
  "mul_row_inv a b i r =
     (length r = length a + length b \<and>
      (\<forall>k < length r. 0 \<le> r ! k \<and> r ! k \<le> 9) \<and>
      (\<forall>k < length r. i + length b \<le> k \<longrightarrow> r ! k = 0) \<and>
      dval r = dval (take i a) * dval b)"

text \<open>
  Before cell \<open>(i, j)\<close>: the same, except that cell \<open>i + j\<close> may hold a pending carry, which
  keeps it below 19 (below 10 once the row is finished).
\<close>

definition mul_cell_inv :: "int list \<Rightarrow> int list \<Rightarrow> nat \<Rightarrow> nat \<Rightarrow> int list \<Rightarrow> bool" where
  "mul_cell_inv a b i j r =
     (length r = length a + length b \<and>
      (\<forall>k < length r. k \<noteq> i + j \<longrightarrow> 0 \<le> r ! k \<and> r ! k \<le> 9) \<and>
      0 \<le> r ! (i + j) \<and> r ! (i + j) \<le> (if j < length b then 18 else 9) \<and>
      (\<forall>k < length r. i + length b \<le> k \<and> i + j < k \<longrightarrow> r ! k = 0) \<and>
      dval r = dval (take i a) * dval b + 10 ^ i * a ! i * dval (take j b))"

section \<open>Reference definitions for the claims\<close>

text \<open>
  The left side \<open>(a / b) * b + (a % b)\<close> of the division identity, computed with the
  operators of the class.
\<close>

definition division_identity_lhs :: "BigNum \<Rightarrow> BigNum \<Rightarrow> BigNum res" where
  "division_identity_lhs a b =
     rbind (operator_div a b) (\<lambda>q.
     rbind (operator_mod a b) (\<lambda>r.
       lift (operator_plus (operator_times q b) r)))"

text \<open>
  Naive exponentiation, following the words of the specification: multiply \<open>base\<close>
  into 1 \<open>n\<close> times with \<^verbatim>\<open>operator*\<close>, then reduce with \<^verbatim>\<open>operator%\<close>.
\<close>

primrec naive_pow :: "BigNum \<Rightarrow> nat \<Rightarrow> BigNum" where
  "naive_pow base 0 = BigNum_ll 1"
| "naive_pow base (Suc n) = operator_times (naive_pow base n) base"

definition naive_powMod :: "BigNum \<Rightarrow> nat \<Rightarrow> BigNum \<Rightarrow> BigNum res" where
  "naive_powMod base n m = operator_mod (naive_pow base n) m"

text \<open>The left side \<open>a * x + b * y\<close> of the Bezout identity, with the operators of the class.\<close>

definition bezout_lhs :: "BigNum \<Rightarrow> BigNum \<Rightarrow> BigNum \<Rightarrow> BigNum \<Rightarrow> BigNum option" where
  "bezout_lhs a x b y = operator_plus (operator_times a x) (operator_times b y)"

section \<open>Outcomes\<close>

lemma rbind_Inr [simp]: "rbind (Some (Inr v)) f = f v"
  by (simp add: rbind_def)

lemma rbind_Inl [simp]: "rbind (Some (Inl e)) f = Some (Inl e)"
  by (simp add: rbind_def)

lemma rbind_None [simp]: "rbind None f = None"
  by (simp add: rbind_def)

lemma lift_Some [simp]: "lift (Some v) = Some (Inr v)"
  by (simp add: lift_def)

lemma lift_None [simp]: "lift None = None"
  by (simp add: lift_def)

section \<open>Properties of the representation\<close>

subsection \<open>Digit vectors\<close>

lemma good_digits_Nil [simp]: "good_digits []"
  by (simp add: good_digits_def)

lemma good_digits_Cons [simp]: "good_digits (d # ds) = (0 \<le> d \<and> d \<le> 9 \<and> good_digits ds)"
  by (auto simp: good_digits_def)

lemma good_digits_append [simp]: "good_digits (xs @ ys) = (good_digits xs \<and> good_digits ys)"
  by (simp add: good_digits_def)

lemma good_digits_nth: "good_digits ds \<Longrightarrow> i < length ds \<Longrightarrow> 0 \<le> ds ! i \<and> ds ! i \<le> 9"
  by (simp add: good_digits_def list_all_length)

lemma good_digits_butlast: "good_digits ds \<Longrightarrow> good_digits (butlast ds)"
  by (induction ds) auto

lemma good_digits_take: "good_digits ds \<Longrightarrow> good_digits (take n ds)"
  unfolding good_digits_def list_all_iff by (auto dest: in_set_takeD)

lemma good_digits_drop: "good_digits ds \<Longrightarrow> good_digits (drop n ds)"
  unfolding good_digits_def list_all_iff by (auto dest: in_set_dropD)

lemma dval_append: "dval (xs @ ys) = dval xs + 10 ^ length xs * dval ys"
  by (induction xs) (simp_all add: algebra_simps)

lemma dval_snoc: "dval (xs @ [d]) = dval xs + 10 ^ length xs * d"
  by (simp add: dval_append)

lemma dval_nonneg: "good_digits ds \<Longrightarrow> 0 \<le> dval ds"
  by (induction ds) auto

lemma dval_less: "good_digits ds \<Longrightarrow> dval ds < 10 ^ length ds"
  by (induction ds) auto

lemma dval_zero_replicate: "good_digits ds \<Longrightarrow> dval ds = 0 \<Longrightarrow> ds = replicate (length ds) 0"
proof (induction ds)
  case Nil
  then show ?case by simp
next
  case (Cons d ds)
  then have g: "good_digits ds" and d: "0 \<le> d" "d \<le> 9" by simp_all
  from dval_nonneg [OF g] Cons.prems(2) d have "d = 0" "dval ds = 0" by simp_all
  with Cons.IH [OF g] show ?case by simp
qed

lemma dval_zero_last: "good_digits ds \<Longrightarrow> dval ds = 0 \<Longrightarrow> ds \<noteq> [] \<Longrightarrow> last ds = 0"
proof -
  assume a: "good_digits ds" "dval ds = 0" "ds \<noteq> []"
  from dval_zero_replicate [OF a(1,2)] have "ds = replicate (length ds) 0" .
  moreover from a(3) have "length ds \<noteq> 0" by simp
  ultimately show ?thesis by (metis last_replicate)
qed

lemma dval_lower: "good_digits ds \<Longrightarrow> ds \<noteq> [] \<Longrightarrow> last ds \<noteq> 0 \<Longrightarrow> 10 ^ (length ds - 1) \<le> dval ds"
proof (induction ds rule: rev_induct)
  case Nil
  then show ?case by simp
next
  case (snoc d ds)
  then have "1 \<le> d" and g: "good_digits ds" by simp_all
  then have "(10::int) ^ length ds * 1 \<le> 10 ^ length ds * d"
    by (intro mult_left_mono) simp_all
  with dval_nonneg [OF g] have "10 ^ length ds \<le> dval ds + 10 ^ length ds * d"
    by linarith
  then show ?case by (simp add: dval_snoc)
qed

lemma dval_inj_same_length:
  "length a = length b \<Longrightarrow> good_digits a \<Longrightarrow> good_digits b \<Longrightarrow> dval a = dval b \<Longrightarrow> a = b"
proof (induction a b rule: list_induct2)
  case Nil
  then show ?case by simp
next
  case (Cons x xs y ys)
  then have b: "0 \<le> x" "x \<le> 9" "0 \<le> y" "y \<le> 9" and e: "x + 10 * dval xs = y + 10 * dval ys"
    by simp_all
  then have "x = y" "dval xs = dval ys" by presburger+
  with Cons show ?case by simp
qed

lemma norm_digits_length_le:
  assumes a: "norm_digits a" and b: "norm_digits b" and le: "dval a \<le> dval b"
  shows "length a \<le> length b"
proof (rule ccontr)
  assume "\<not> length a \<le> length b"
  then have l: "length b < length a" by simp
  with b have "1 < length a" by (cases b) (simp_all add: norm_digits_def)
  with a have "10 ^ (length a - 1) \<le> dval a"
    by (intro dval_lower) (auto simp: norm_digits_def)
  moreover from b have "dval b < 10 ^ length b"
    by (simp add: norm_digits_def dval_less)
  moreover from l have "(10::int) ^ length b \<le> 10 ^ (length a - 1)"
    by (intro power_increasing) simp_all
  ultimately show False using le by linarith
qed

lemma norm_digits_inj:
  assumes "norm_digits a" "norm_digits b" "dval a = dval b"
  shows "a = b"
proof -
  have "length a \<le> length b" "length b \<le> length a"
    using assms by (simp_all add: norm_digits_length_le)
  then have "length a = length b" by simp
  then show ?thesis
    using assms by (intro dval_inj_same_length) (simp_all add: norm_digits_def)
qed

lemma norm_digits_zero: "norm_digits ds \<Longrightarrow> dval ds = 0 \<Longrightarrow> ds = [0]"
  by (rule norm_digits_inj) (simp_all add: norm_digits_def)

lemma canonical_norm: "canonical a \<Longrightarrow> norm_digits (digits a)"
  by (simp add: canonical_def norm_digits_def)

lemma isZero_iff: "isZero a = (digits a = [0])"
  by (cases "digits a") (auto simp: isZero_def)

lemma canonical_isZero: "canonical a \<Longrightarrow> isZero a = (val a = 0)"
  by (auto simp: isZero_iff val_def dest!: canonical_norm dest: norm_digits_zero)

lemma canonical_neg_iff: "canonical a \<Longrightarrow> is_negative a = (val a < 0)"
proof -
  assume c: "canonical a"
  then have n: "norm_digits (digits a)" by (rule canonical_norm)
  then have nn: "0 \<le> dval (digits a)" by (simp add: norm_digits_def dval_nonneg)
  show ?thesis
  proof (cases "is_negative a")
    case True
    with c have "digits a \<noteq> [0]" by (auto simp: canonical_def isZero_iff)
    with norm_digits_zero [OF n] have "dval (digits a) \<noteq> 0" by blast
    with nn True show ?thesis by (simp add: val_def)
  next
    case False
    with nn show ?thesis by (simp add: val_def)
  qed
qed

lemma canonical_nonneg: "canonical a \<Longrightarrow> \<not> is_negative a \<Longrightarrow> 0 \<le> val a"
  by (simp add: canonical_neg_iff)

lemma canonical_abs: "canonical a \<Longrightarrow> dval (digits a) = \<bar>val a\<bar>"
proof -
  assume "canonical a"
  then have "0 \<le> dval (digits a)"
    by (simp add: canonical_def dval_nonneg)
  then show ?thesis by (simp add: val_def)
qed

text \<open>Two canonical values with the same value are the same record.\<close>

lemma canonical_inj:
  assumes "canonical a" "canonical b" "val a = val b"
  shows "a = b"
proof -
  have "is_negative a = is_negative b"
    using assms by (simp add: canonical_neg_iff)
  moreover have "digits a = digits b"
    using assms by (intro norm_digits_inj canonical_norm) (simp_all add: canonical_abs)
  ultimately show ?thesis by simp
qed

subsection \<open>\<^verbatim>\<open>removeLeadingZeros\<close>\<close>

lemma removeLeadingZeros_dval [simp]: "dval (removeLeadingZeros ds) = dval ds"
proof (induction ds rule: removeLeadingZeros.induct)
  case (1 ds)
  show ?case
  proof (cases "length ds > 1 \<and> last ds = 0")
    case True
    then have "ds \<noteq> []" by auto
    then have "ds = butlast ds @ [last ds]" by simp
    then have "dval ds = dval (butlast ds @ [last ds])" by simp
    also have "\<dots> = dval (butlast ds)" using True by (simp add: dval_snoc)
    finally show ?thesis using 1 True by (subst removeLeadingZeros.simps) simp
  next
    case False
    then show ?thesis by (subst removeLeadingZeros.simps) auto
  qed
qed

lemma removeLeadingZeros_norm:
  "ds \<noteq> [] \<Longrightarrow> good_digits ds \<Longrightarrow> norm_digits (removeLeadingZeros ds)"
proof (induction ds rule: removeLeadingZeros.induct)
  case (1 ds)
  show ?case
  proof (cases "length ds > 1 \<and> last ds = 0")
    case True
    then have "butlast ds \<noteq> []" by (cases ds) auto
    with 1 True show ?thesis
      by (subst removeLeadingZeros.simps) (simp add: good_digits_butlast)
  next
    case False
    with 1 show ?thesis
      by (subst removeLeadingZeros.simps) (cases ds, auto simp: norm_digits_def)
  qed
qed

lemma removeLeadingZeros_id: "norm_digits ds \<Longrightarrow> removeLeadingZeros ds = ds"
  by (subst removeLeadingZeros.simps) (auto simp: norm_digits_def)

text \<open>Building a canonical record from a normalised digit vector, as every operator does.\<close>

lemma canonical_mk:
  "norm_digits ds \<Longrightarrow> (ds = [0] \<longrightarrow> \<not> n) \<Longrightarrow> canonical \<lparr>digits = ds, is_negative = n\<rparr>"
  by (auto simp: canonical_def norm_digits_def isZero_iff)

subsection \<open>Negation and comparison\<close>

lemma operator_neg_canonical: "canonical a \<Longrightarrow> canonical (operator_neg a)"
  by (auto simp: operator_neg_def canonical_def isZero_iff)

lemma operator_neg_val: "canonical a \<Longrightarrow> val (operator_neg a) = - val a"
  by (auto simp: operator_neg_def val_def isZero_iff)

lemma operator_neg_digits: "digits (operator_neg a) = digits a"
  by (simp add: operator_neg_def)

lemma digit_cmp:
  fixes A B P x y :: int
  assumes "0 \<le> A" "A < P" "0 \<le> B" "B < P" "x < y"
  shows "A + P * x < B + P * y"
proof -
  from assms have "0 \<le> P" by simp
  with assms have "P * (x + 1) \<le> P * y" by (intro mult_left_mono) simp_all
  then have "P * x + P \<le> P * y" by (simp add: distrib_left)
  with assms show ?thesis by linarith
qed

lemma lt_loop_take:
  assumes "good_digits a" "good_digits b"
  shows "n \<le> length a \<Longrightarrow> n \<le> length b \<Longrightarrow> lt_loop a b n = (dval (take n a) < dval (take n b))"
proof (induction n)
  case 0
  then show ?case by simp
next
  case (Suc n)
  let ?A = "dval (take n a)" and ?B = "dval (take n b)" and ?P = "(10::int) ^ n"
  from Suc.prems have n: "n < length a" "n < length b" by simp_all
  have A: "0 \<le> ?A" "?A < ?P" and B: "0 \<le> ?B" "?B < ?P"
    using assms n dval_nonneg [of "take n a"] dval_less [of "take n a"]
      dval_nonneg [of "take n b"] dval_less [of "take n b"]
    by (simp_all add: good_digits_take)
  have eA: "dval (take (Suc n) a) = ?A + ?P * (a ! n)"
    using n by (simp add: take_Suc_conv_app_nth dval_snoc)
  have eB: "dval (take (Suc n) b) = ?B + ?P * (b ! n)"
    using n by (simp add: take_Suc_conv_app_nth dval_snoc)
  consider "a ! n < b ! n" | "b ! n < a ! n" | "a ! n = b ! n" by linarith
  then show ?case
  proof cases
    case 1
    with digit_cmp [OF A B 1] show ?thesis by (simp add: eA eB)
  next
    case 2
    with digit_cmp [OF B A 2] show ?thesis by (simp add: eA eB)
  next
    case 3
    with Suc.IH n show ?thesis by (simp add: eA eB)
  qed
qed

lemma operator_lt_nonneg:
  assumes a: "canonical a" and b: "canonical b"
    and na: "\<not> is_negative a" and nb: "\<not> is_negative b"
  shows "operator_lt a b = Some (val a < val b)"
proof -
  have va: "val a = dval (digits a)" and vb: "val b = dval (digits b)"
    using na nb by (simp_all add: val_def)
  have n: "norm_digits (digits a)" "norm_digits (digits b)"
    using a b by (simp_all add: canonical_norm)
  show ?thesis
  proof (cases "length (digits a) = length (digits b)")
    case True
    from n have "lt_loop (digits a) (digits b) (length (digits a)) = (val a < val b)"
      using True by (subst lt_loop_take) (simp_all add: norm_digits_def va vb)
    with True na nb show ?thesis by (subst operator_lt.simps) simp
  next
    case False
    have "(length (digits a) < length (digits b)) = (val a < val b)"
    proof
      assume l: "length (digits a) < length (digits b)"
      show "val a < val b"
      proof (rule ccontr)
        assume "\<not> val a < val b"
        then have "dval (digits b) \<le> dval (digits a)" by (simp add: va vb)
        from norm_digits_length_le [OF n(2) n(1) this] l show False by simp
      qed
    next
      assume "val a < val b"
      then have "dval (digits a) \<le> dval (digits b)" by (simp add: va vb)
      from norm_digits_length_le [OF n(1) n(2) this] False
      show "length (digits a) < length (digits b)" by simp
    qed
    with False na nb show ?thesis by (subst operator_lt.simps) simp
  qed
qed

lemma operator_lt_correct:
  assumes a: "canonical a" and b: "canonical b"
  shows "operator_lt a b = Some (val a < val b)"
proof (cases "is_negative a = is_negative b")
  case False
  with a b have "is_negative a = (val a < val b)"
    by (auto simp: canonical_neg_iff)
  with False show ?thesis by (subst operator_lt.simps) simp
next
  case True
  show ?thesis
  proof (cases "is_negative a")
    case False
    with True a b show ?thesis by (simp add: operator_lt_nonneg)
  next
    case neg: True
    with True have negb: "is_negative b" by simp
    from neg negb a b have z: "\<not> isZero a" "\<not> isZero b"
      by (auto simp: canonical_def)
    then have "\<not> is_negative (operator_neg a)" "\<not> is_negative (operator_neg b)"
      using neg negb by (simp_all add: operator_neg_def)
    then have "operator_lt (operator_neg b) (operator_neg a) = Some (val a < val b)"
      using a b by (simp add: operator_lt_nonneg operator_neg_canonical operator_neg_val)
    with True neg show ?thesis by (subst operator_lt.simps) simp
  qed
qed

lemma operator_ge_correct:
  "canonical a \<Longrightarrow> canonical b \<Longrightarrow> operator_ge a b = Some (val b \<le> val a)"
  by (auto simp: operator_ge_def operator_lt_correct)

lemma operator_eq_iff: "operator_eq a b = (a = b)"
  by (auto simp: operator_eq_def)

lemma operator_le_correct:
  "canonical a \<Longrightarrow> canonical b \<Longrightarrow> operator_le a b = Some (val a \<le> val b)"
  by (auto simp: operator_le_def operator_lt_correct operator_eq_iff dest: canonical_inj)

lemma operator_gt_correct:
  "canonical a \<Longrightarrow> canonical b \<Longrightarrow> operator_gt a b = Some (val b < val a)"
  by (auto simp: operator_gt_def operator_le_correct)

subsection \<open>The carry loop\<close>

lemma dval_drop_step:
  "dval (drop i a) = (if i < length a then a ! i else 0) + 10 * dval (drop (Suc i) a)"
  by (simp add: Cons_nth_drop_Suc [symmetric])

lemma sdiv_nonneg: "0 \<le> (x::int) \<Longrightarrow> x sdiv 10 = x div 10"
  by (cases "x = 0") (simp_all add: signed_divide_int_def)

lemma smod_nonneg: "0 \<le> (x::int) \<Longrightarrow> x smod 10 = x mod 10"
  by (cases "x = 0") (simp_all add: signed_modulo_int_def)

lemma add_loop_correct:
  "good_digits a \<Longrightarrow> good_digits b \<Longrightarrow> 0 \<le> carry \<Longrightarrow> carry \<le> 1 \<Longrightarrow>
   good_digits acc \<Longrightarrow> length acc = i \<Longrightarrow>
   good_digits (add_loop a b i carry acc) \<and>
   max (length a) (length b) \<le> length (add_loop a b i carry acc) \<and>
   dval (add_loop a b i carry acc)
     = dval acc + 10 ^ i * (carry + dval (drop i a) + dval (drop i b))"
proof (induction a b i carry acc rule: add_loop.induct)
  case (1 a b i carry acc)
  let ?da = "if i < length a then a ! i else 0"
  let ?db = "if i < length b then b ! i else 0"
  define s where "s = carry + ?da + ?db"
  show ?case
  proof (cases "i < max (length a) (length b) \<or> carry \<noteq> 0")
    case False
    then have "add_loop a b i carry acc = acc"
      by (subst add_loop.simps) simp
    moreover from False have "length a \<le> i" "length b \<le> i" "carry = 0"
      by (simp_all add: not_less)
    ultimately show ?thesis using "1.prems" by simp
  next
    case True
    have s_alt: "s = (if i < length b
                      then (if i < length a then carry + a ! i else carry) + b ! i
                      else (if i < length a then carry + a ! i else carry))"
      by (simp add: s_def)
    have unfold: "add_loop a b i carry acc = add_loop a b (Suc i) (s sdiv 10) (acc @ [s smod 10])"
      by (subst add_loop.simps) (simp add: True s_alt Let_def)
    have da: "0 \<le> ?da" "?da \<le> 9" and db: "0 \<le> ?db" "?db \<le> 9"
      using good_digits_nth [OF "1.prems"(1), of i] good_digits_nth [OF "1.prems"(2), of i]
      by simp_all
    with "1.prems" have s: "0 \<le> s" "s \<le> 19" by (simp_all add: s_def)
    then have sd: "s sdiv 10 = s div 10" and sm: "s smod 10 = s mod 10"
      by (simp_all add: sdiv_nonneg smod_nonneg)
    from s have c': "0 \<le> s div 10" "s div 10 \<le> 1" and m': "0 \<le> s mod 10" "s mod 10 \<le> 9"
      by presburger+
    have IH: "good_digits (add_loop a b (Suc i) (s sdiv 10) (acc @ [s smod 10])) \<and>
       max (length a) (length b) \<le> length (add_loop a b (Suc i) (s sdiv 10) (acc @ [s smod 10])) \<and>
       dval (add_loop a b (Suc i) (s sdiv 10) (acc @ [s smod 10]))
         = dval (acc @ [s smod 10])
           + 10 ^ Suc i * (s sdiv 10 + dval (drop (Suc i) a) + dval (drop (Suc i) b))"
      unfolding s_alt
      by (rule "1.IH" [OF True refl refl refl])
         (use "1.prems" c' m' sd sm in \<open>simp_all add: s_alt [symmetric]\<close>)
    have gen: "dval (acc @ [m]) + 10 ^ Suc i * (d + A + B)
        = dval acc + 10 ^ i * ((m + 10 * d) + 10 * A + 10 * B)" for m d A B :: int
      using "1.prems"(6) by (simp add: dval_snoc algebra_simps)
    have md: "s mod 10 + 10 * (s div 10) = s" by simp
    have "dval (acc @ [s smod 10])
           + 10 ^ Suc i * (s sdiv 10 + dval (drop (Suc i) a) + dval (drop (Suc i) b))
        = dval acc + 10 ^ i * (s + 10 * dval (drop (Suc i) a) + 10 * dval (drop (Suc i) b))"
      unfolding sd sm gen md ..
    also have "s + 10 * dval (drop (Suc i) a) + 10 * dval (drop (Suc i) b)
        = carry + dval (drop i a) + dval (drop i b)"
      unfolding s_def dval_drop_step [of i a] dval_drop_step [of i b] by simp
    finally show ?thesis using IH unfold by simp
  qed
qed

subsection \<open>The borrow loop\<close>

lemma dval_take_step:
  "dval (take (Suc n) b) = dval (take n b) + 10 ^ n * (if n < length b then b ! n else 0)"
  by (simp add: take_Suc_conv_app_nth dval_snoc)

lemma sub_fold_correct:
  assumes ga: "good_digits a" and gb: "good_digits b"
  shows "n \<le> length a \<Longrightarrow>
    (let st = fold (sub_step a b) [0..<n] (0, []) in
       length (snd st) = n \<and> good_digits (snd st) \<and> 0 \<le> fst st \<and> fst st \<le> 1 \<and>
       dval (snd st) - 10 ^ n * fst st = dval (take n a) - dval (take n b))"
proof (induction n)
  case 0
  then show ?case by simp
next
  case (Suc n)
  define st where "st = fold (sub_step a b) [0..<n] (0, [])"
  define bo where "bo = fst st"
  define acc where "acc = snd st"
  let ?db = "if n < length b then b ! n else 0"
  define diff where "diff = a ! n - bo - ?db"
  from Suc.prems have n: "n < length a" by simp
  from Suc.IH n have IH: "length acc = n" "good_digits acc" "0 \<le> bo" "bo \<le> 1"
    "dval acc - 10 ^ n * bo = dval (take n a) - dval (take n b)"
    by (simp_all add: st_def bo_def acc_def Let_def)
  have da: "0 \<le> a ! n" "a ! n \<le> 9" using good_digits_nth [OF ga n] by simp_all
  have db: "0 \<le> ?db" "?db \<le> 9" using good_digits_nth [OF gb, of n] by simp_all
  have step: "fold (sub_step a b) [0..<Suc n] (0, [])
      = (if diff < 0 then (1, acc @ [diff + 10]) else (0, acc @ [diff]))"
    by (simp add: sub_step_def st_def [symmetric] bo_def [symmetric] acc_def [symmetric]
        diff_def Let_def)
  have e: "dval (take (Suc n) a) - dval (take (Suc n) b)
      = dval acc - 10 ^ n * bo + 10 ^ n * (a ! n - ?db)"
    unfolding dval_take_step [of n a] dval_take_step [of n b] IH(5) using n
    by (simp add: algebra_simps)
  also have "\<dots> = dval acc + 10 ^ n * diff"
    by (simp add: diff_def algebra_simps)
  finally have e': "dval (take (Suc n) a) - dval (take (Suc n) b) = dval acc + 10 ^ n * diff" .
  show ?case
  proof (cases "diff < 0")
    case True
    have "- 10 \<le> diff" using da db IH(3,4) by (simp add: diff_def)
    moreover have "dval (acc @ [diff + 10]) - 10 ^ Suc n * 1 = dval acc + 10 ^ n * diff"
      using IH(1) by (simp add: dval_snoc algebra_simps)
    ultimately show ?thesis
      unfolding step Let_def e' using True IH(1,2) by simp
  next
    case False
    have "diff \<le> 9" using da db IH(3,4) by (simp add: diff_def)
    moreover have "dval (acc @ [diff]) - 10 ^ Suc n * 0 = dval acc + 10 ^ n * diff"
      using IH(1) by (simp add: dval_snoc)
    ultimately show ?thesis
      unfolding step Let_def e' using False IH(1,2) by simp
  qed
qed

lemma sub_loop_correct:
  assumes a: "norm_digits a" and b: "norm_digits b" and le: "dval b \<le> dval a"
  shows "good_digits (sub_loop a b) \<and> sub_loop a b \<noteq> [] \<and> dval (sub_loop a b) = dval a - dval b"
proof -
  define st where "st = fold (sub_step a b) [0..<length a] (0, [])"
  have ga: "good_digits a" and gb: "good_digits b"
    using a b by (simp_all add: norm_digits_def)
  from norm_digits_length_le [OF b a le] have l: "length b \<le> length a" .
  from sub_fold_correct [OF ga gb, of "length a"] l
  have f: "length (snd st) = length a" "good_digits (snd st)" "0 \<le> fst st" "fst st \<le> 1"
    "dval (snd st) - 10 ^ length a * fst st = dval a - dval b"
    by (simp_all add: st_def Let_def)
  from dval_less [OF f(2)] f(1) have "dval (snd st) < 10 ^ length a" by simp
  with f(3,4,5) le have "fst st = 0"
    by (cases "fst st = 0") (auto simp: order_class.le_less)
  with f(5) have "dval (snd st) = dval a - dval b" by simp
  moreover from a f(1) have "snd st \<noteq> []" by (auto simp: norm_digits_def)
  ultimately show ?thesis using f(2) by (simp add: sub_loop_def st_def)
qed

subsection \<open>Addition and subtraction\<close>

lemma minus_nonneg_ge:
  assumes a: "canonical a" and b: "canonical b"
    and na: "\<not> is_negative a" and nb: "\<not> is_negative b" and le: "val b \<le> val a"
  shows "\<exists>r. plus_minus True a b = Some r \<and> canonical r \<and> val r = val a - val b"
proof -
  let ?r = "\<lparr>digits = removeLeadingZeros (sub_loop (digits a) (digits b)), is_negative = False\<rparr>"
  have va: "val a = dval (digits a)" and vb: "val b = dval (digits b)"
    using na nb by (simp_all add: val_def)
  from sub_loop_correct [OF canonical_norm [OF a] canonical_norm [OF b]] le
  have s: "good_digits (sub_loop (digits a) (digits b))" "sub_loop (digits a) (digits b) \<noteq> []"
    "dval (sub_loop (digits a) (digits b)) = val a - val b"
    by (simp_all add: va vb)
  have "plus_minus True a b = Some ?r"
    using na nb le a b by (subst plus_minus.simps) (simp add: operator_lt_correct)
  moreover have "canonical ?r"
    using s by (intro canonical_mk removeLeadingZeros_norm) simp_all
  moreover have "val ?r = val a - val b"
    using s by (simp add: val_def)
  ultimately show ?thesis by blast
qed

lemma minus_nonneg:
  assumes a: "canonical a" and b: "canonical b"
    and na: "\<not> is_negative a" and nb: "\<not> is_negative b"
  shows "\<exists>r. plus_minus True a b = Some r \<and> canonical r \<and> val r = val a - val b"
proof (cases "val a < val b")
  case False
  then show ?thesis using minus_nonneg_ge [OF a b na nb] by simp
next
  case True
  then have "val a \<le> val b" by simp
  from minus_nonneg_ge [OF b a nb na this]
  obtain r where r: "plus_minus True b a = Some r" "canonical r" "val r = val b - val a"
    by blast
  have "plus_minus True a b = Some (operator_neg r)"
    using na nb True a b r(1) by (subst plus_minus.simps) (simp add: operator_lt_correct)
  with r show ?thesis by (simp add: operator_neg_canonical operator_neg_val)
qed

lemma plus_same_sign:
  assumes a: "canonical a" and b: "canonical b" and s: "is_negative a = is_negative b"
  shows "\<exists>r. plus_minus False a b = Some r \<and> canonical r \<and> val r = val a + val b"
proof -
  let ?ds = "add_loop (digits a) (digits b) 0 0 []"
  let ?q = "\<lparr>digits = removeLeadingZeros ?ds, is_negative = is_negative a\<rparr>"
  let ?r = "if isZero ?q then ?q\<lparr>is_negative := False\<rparr> else ?q"
  have ga: "good_digits (digits a)" "digits a \<noteq> []" and gb: "good_digits (digits b)"
    using a b by (simp_all add: canonical_def)
  from add_loop_correct [OF ga(1) gb, of 0 "[]" 0]
  have l: "good_digits ?ds" "max (length (digits a)) (length (digits b)) \<le> length ?ds"
    "dval ?ds = dval (digits a) + dval (digits b)"
    by simp_all
  from l(2) ga(2) have ne: "?ds \<noteq> []" by auto
  have n: "norm_digits (removeLeadingZeros ?ds)"
    using l(1) ne by (rule removeLeadingZeros_norm [rotated])
  have "plus_minus False a b = Some ?r"
    using s by (subst plus_minus.simps) (simp add: Let_def)
  moreover have "canonical ?r"
    using n by (auto simp: isZero_iff intro!: canonical_mk)
  moreover have "val ?r = val a + val b"
  proof (cases "isZero ?q")
    case True
    then have "dval (removeLeadingZeros ?ds) = 0" by (simp add: isZero_iff)
    then have "dval (digits a) + dval (digits b) = 0" using l(3) by simp
    moreover have "0 \<le> dval (digits a)" "0 \<le> dval (digits b)"
      using ga gb by (simp_all add: dval_nonneg)
    ultimately have "dval (digits a) = 0" "dval (digits b) = 0" by linarith+
    with True l(3) show ?thesis by (simp add: val_def)
  next
    case False
    with l(3) s show ?thesis by (simp add: val_def)
  qed
  ultimately show ?thesis by blast
qed

lemma operator_plus_correct:
  assumes a: "canonical a" and b: "canonical b"
  shows "\<exists>r. operator_plus a b = Some r \<and> canonical r \<and> val r = val a + val b"
proof (cases "is_negative a = is_negative b")
  case True
  then show ?thesis unfolding operator_plus_def by (rule plus_same_sign [OF a b])
next
  case False
  show ?thesis
  proof (cases "is_negative a")
    case True
    with False have nb: "\<not> is_negative b" by simp
    from True a have "\<not> isZero a" by (auto simp: canonical_def)
    with True have n: "\<not> is_negative (operator_neg a)" by (simp add: operator_neg_def)
    from minus_nonneg [OF b operator_neg_canonical [OF a] nb n]
    obtain r where "plus_minus True b (operator_neg a) = Some r" "canonical r"
      "val r = val b - val (operator_neg a)" by blast
    moreover have "plus_minus False a b = plus_minus True b (operator_neg a)"
      using False True by (subst plus_minus.simps) simp
    ultimately show ?thesis using a by (simp add: operator_plus_def operator_neg_val)
  next
    case na: False
    with False have tb: "is_negative b" by simp
    with b have "\<not> isZero b" by (auto simp: canonical_def)
    with tb have n: "\<not> is_negative (operator_neg b)" by (simp add: operator_neg_def)
    from minus_nonneg [OF a operator_neg_canonical [OF b] na n]
    obtain r where "plus_minus True a (operator_neg b) = Some r" "canonical r"
      "val r = val a - val (operator_neg b)" by blast
    moreover have "plus_minus False a b = plus_minus True a (operator_neg b)"
      using False na by (subst plus_minus.simps) simp
    ultimately show ?thesis using b by (simp add: operator_plus_def operator_neg_val)
  qed
qed

lemma operator_minus_correct:
  assumes a: "canonical a" and b: "canonical b"
  shows "\<exists>r. operator_minus a b = Some r \<and> canonical r \<and> val r = val a - val b"
proof (cases "is_negative a = is_negative b")
  case False
  from operator_plus_correct [OF a operator_neg_canonical [OF b]]
  obtain r where "plus_minus False a (operator_neg b) = Some r" "canonical r"
    "val r = val a + val (operator_neg b)" by (auto simp: operator_plus_def)
  moreover have "plus_minus True a b = plus_minus False a (operator_neg b)"
    using False by (subst plus_minus.simps) simp
  ultimately show ?thesis using b by (simp add: operator_minus_def operator_neg_val)
next
  case True
  show ?thesis
  proof (cases "is_negative a")
    case False
    with True show ?thesis
      unfolding operator_minus_def by (intro minus_nonneg [OF a b]) simp_all
  next
    case neg: True
    with True have negb: "is_negative b" by simp
    from neg negb a b have "\<not> isZero a" "\<not> isZero b" by (auto simp: canonical_def)
    with neg negb have n: "\<not> is_negative (operator_neg b)" "\<not> is_negative (operator_neg a)"
      by (simp_all add: operator_neg_def)
    from minus_nonneg [OF operator_neg_canonical [OF b] operator_neg_canonical [OF a] n]
    obtain r where "plus_minus True (operator_neg b) (operator_neg a) = Some r" "canonical r"
      "val r = val (operator_neg b) - val (operator_neg a)" by blast
    moreover have "plus_minus True a b = plus_minus True (operator_neg b) (operator_neg a)"
      using True neg by (subst plus_minus.simps) simp
    ultimately show ?thesis using a b by (simp add: operator_minus_def operator_neg_val)
  qed
qed

subsection \<open>Multiplication\<close>

lemma dval_update:
  "k < length r \<Longrightarrow> dval (r[k := v]) = dval r + 10 ^ k * (v - r ! k)"
proof (induction r arbitrary: k)
  case Nil
  then show ?case by simp
next
  case (Cons x r)
  show ?case
  proof (cases k)
    case 0
    then show ?thesis by simp
  next
    case (Suc k')
    with Cons.prems have "k' < length r" by simp
    from Cons.IH [OF this] Suc show ?thesis by (simp add: algebra_simps)
  qed
qed

lemma dval_replicate_zero [simp]: "dval (replicate n 0) = 0"
  by (induction n) simp_all

lemma mul_step_length [simp]: "length (mul_step a b i j r) = length r"
  by (simp add: mul_step_def Let_def)

lemma mul_step_nth:
  assumes k: "k < length r" and ij: "i + j + 1 < length r"
    and t: "0 \<le> r ! (i + j) + a ! i * b ! j"
  shows "mul_step a b i j r ! k =
     (if k = i + j then (r ! (i + j) + a ! i * b ! j) mod 10
      else if k = i + j + 1 then r ! (i + j + 1) + (r ! (i + j) + a ! i * b ! j) div 10
      else r ! k)"
  using k ij t by (auto simp: mul_step_def Let_def nth_list_update sdiv_nonneg smod_nonneg)

lemma mul_step_dval:
  assumes ij: "i + j + 1 < length r" and t: "0 \<le> r ! (i + j) + a ! i * b ! j"
  shows "dval (mul_step a b i j r) = dval r + 10 ^ (i + j) * (a ! i * b ! j)"
proof -
  define t where "t = r ! (i + j) + a ! i * b ! j"
  define r1 where "r1 = r[i + j := t]"
  define r2 where "r2 = r1[i + j + 1 := r1 ! (i + j + 1) + t div 10]"
  define r3 where "r3 = r2[i + j := t mod 10]"
  have t0: "0 \<le> t" using t by (simp add: t_def)
  have r1t: "r1 ! (i + j) = t" using ij by (simp add: r1_def)
  have r2t: "r2 ! (i + j) = t" using ij by (simp add: r2_def r1_def)
  have eq: "mul_step a b i j r = r3"
    unfolding mul_step_def Let_def t_def [symmetric] r1_def [symmetric] r1t
      sdiv_nonneg [OF t0] r2_def [symmetric] r2t smod_nonneg [OF t0] r3_def ..
  have "dval r1 = dval r + 10 ^ (i + j) * (a ! i * b ! j)"
    using ij by (simp add: r1_def dval_update t_def)
  moreover have "dval r2 = dval r1 + 10 ^ (i + j + 1) * (t div 10)"
    using ij by (simp add: r2_def dval_update r1_def)
  moreover have "dval r3 = dval r2 + 10 ^ (i + j) * (t mod 10 - t)"
    using ij r2t by (simp add: r3_def dval_update r2_def r1_def)
  moreover have "10 ^ (i + j + 1) * (t div 10) + 10 ^ (i + j) * (t mod 10 - t) = (0::int)"
  proof -
    have gen: "10 ^ (i + j + 1) * d + 10 ^ (i + j) * (m - t)
        = 10 ^ (i + j) * (10 * d + m - t)" for d m :: int
      by (simp add: algebra_simps)
    have "10 * (t div 10) + t mod 10 - t = 0" by simp
    then show ?thesis unfolding gen by simp
  qed
  ultimately have "dval r3 = dval r + 10 ^ (i + j) * (a ! i * b ! j)" by linarith
  with eq show ?thesis by simp
qed

lemma mul_cell_step:
  assumes ga: "good_digits a" and gb: "good_digits b"
    and i: "i < length a" and j: "j < length b"
    and inv: "mul_cell_inv a b i j r"
  shows "mul_cell_inv a b i (Suc j) (mul_step a b i j r)"
proof -
  let ?p = "a ! i * b ! j"
  let ?t = "r ! (i + j) + ?p"
  from inv have len: "length r = length a + length b"
    and oth: "\<And>k. k < length r \<Longrightarrow> k \<noteq> i + j \<Longrightarrow> 0 \<le> r ! k \<and> r ! k \<le> 9"
    and hot: "0 \<le> r ! (i + j)" "r ! (i + j) \<le> 18"
    and zer: "\<And>k. k < length r \<Longrightarrow> i + length b \<le> k \<Longrightarrow> i + j < k \<Longrightarrow> r ! k = 0"
    and dv: "dval r = dval (take i a) * dval b + 10 ^ i * a ! i * dval (take j b)"
    using j by (simp_all add: mul_cell_inv_def)
  have ij: "i + j + 1 < length r" using i j len by simp
  have da: "0 \<le> a ! i" "a ! i \<le> 9" using good_digits_nth [OF ga i] by simp_all
  have db: "0 \<le> b ! j" "b ! j \<le> 9" using good_digits_nth [OF gb j] by simp_all
  have p: "0 \<le> ?p" "?p \<le> 81"
    using da db mult_mono [of "a ! i" 9 "b ! j" 9] by simp_all
  with hot have t: "0 \<le> ?t" "?t \<le> 99" by simp_all
  then have c: "0 \<le> ?t div 10" "?t div 10 \<le> 9" and m: "0 \<le> ?t mod 10" "?t mod 10 \<le> 9"
    by presburger+
  note nth = mul_step_nth [OF _ ij t(1)]
  have nxt: "0 \<le> r ! (i + j + 1)" "r ! (i + j + 1) \<le> 9"
    using oth [OF ij] by simp_all
  have "length (mul_step a b i j r) = length a + length b"
    using len by simp
  moreover have "\<forall>k < length (mul_step a b i j r). k \<noteq> i + Suc j \<longrightarrow>
      0 \<le> mul_step a b i j r ! k \<and> mul_step a b i j r ! k \<le> 9"
    using oth m by (auto simp: nth)
  moreover have "0 \<le> mul_step a b i j r ! (i + Suc j)"
    using ij nxt c by (simp add: nth)
  moreover have "mul_step a b i j r ! (i + Suc j) \<le> (if Suc j < length b then 18 else 9)"
  proof (cases "Suc j < length b")
    case True
    with ij nxt c show ?thesis by (simp add: nth)
  next
    case False
    with j have "i + length b \<le> i + j + 1" by simp
    from zer [OF ij this] have "r ! (i + j + 1) = 0" by simp
    with False ij c show ?thesis by (simp add: nth)
  qed
  moreover have "\<forall>k < length (mul_step a b i j r).
      i + length b \<le> k \<and> i + Suc j < k \<longrightarrow> mul_step a b i j r ! k = 0"
    using zer by (auto simp: nth)
  moreover have "dval (mul_step a b i j r)
      = dval (take i a) * dval b + 10 ^ i * a ! i * dval (take (Suc j) b)"
    using j by (simp add: mul_step_dval [OF ij t(1)] dv dval_take_step power_add algebra_simps)
  ultimately show ?thesis unfolding mul_cell_inv_def by blast
qed

lemma mul_row_fold:
  assumes ga: "good_digits a" and gb: "good_digits b" and i: "i < length a"
    and inv: "mul_cell_inv a b i 0 r"
  shows "j \<le> length b \<Longrightarrow> mul_cell_inv a b i j (fold (\<lambda>j r. mul_step a b i j r) [0..<j] r)"
proof (induction j)
  case 0
  with inv show ?case by simp
next
  case (Suc j)
  then have "mul_cell_inv a b i j (fold (\<lambda>j r. mul_step a b i j r) [0..<j] r)" and "j < length b"
    by simp_all
  from mul_cell_step [OF ga gb i this(2) this(1)] show ?case by simp
qed

lemma mul_row_step:
  assumes ga: "good_digits a" and gb: "good_digits b" and i: "i < length a"
    and inv: "mul_row_inv a b i r"
  shows "mul_row_inv a b (Suc i) (fold (\<lambda>j r. mul_step a b i j r) [0..<length b] r)"
proof -
  let ?r = "fold (\<lambda>j r. mul_step a b i j r) [0..<length b] r"
  from inv have ri: "length r = length a + length b"
    "\<forall>k < length r. 0 \<le> r ! k \<and> r ! k \<le> 9"
    "\<forall>k < length r. i + length b \<le> k \<longrightarrow> r ! k = 0"
    "dval r = dval (take i a) * dval b"
    by (simp_all add: mul_row_inv_def)
  from ri(1) i have "i < length r" by simp
  with ri(2) have "0 \<le> r ! i" "r ! i \<le> 9" by simp_all
  then have "r ! (i + 0) \<le> (if 0 < length b then 18 else 9)" by simp
  with ri \<open>0 \<le> r ! i\<close> have "mul_cell_inv a b i 0 r"
    unfolding mul_cell_inv_def by simp
  from mul_row_fold [OF ga gb i this, of "length b"]
  have c: "mul_cell_inv a b i (length b) ?r" by simp
  then have len: "length ?r = length a + length b"
    and oth: "\<And>k. k < length ?r \<Longrightarrow> k \<noteq> i + length b \<Longrightarrow> 0 \<le> ?r ! k \<and> ?r ! k \<le> 9"
    and hot: "0 \<le> ?r ! (i + length b)" "?r ! (i + length b) \<le> 9"
    and zer: "\<And>k. k < length ?r \<Longrightarrow> i + length b < k \<Longrightarrow> ?r ! k = 0"
    and dv: "dval ?r = dval (take i a) * dval b + 10 ^ i * a ! i * dval b"
    by (simp_all add: mul_cell_inv_def)
  have "\<forall>k < length ?r. 0 \<le> ?r ! k \<and> ?r ! k \<le> 9"
    using oth hot by (metis (no_types, lifting))
  moreover have "\<forall>k < length ?r. Suc i + length b \<le> k \<longrightarrow> ?r ! k = 0"
    using zer by simp
  moreover have "dval ?r = dval (take (Suc i) a) * dval b"
    using i by (simp add: dv dval_take_step algebra_simps)
  ultimately show ?thesis using len unfolding mul_row_inv_def by blast
qed

lemma mul_rows_fold:
  assumes ga: "good_digits a" and gb: "good_digits b"
  shows "i \<le> length a \<Longrightarrow>
    mul_row_inv a b i (fold (\<lambda>i r. fold (\<lambda>j r. mul_step a b i j r) [0..<length b] r) [0..<i]
                        (replicate (length a + length b) 0))"
proof (induction i)
  case 0
  then show ?case by (simp add: mul_row_inv_def)
next
  case (Suc i)
  then have "i < length a" by simp
  from mul_row_step [OF ga gb this] Suc show ?case by simp
qed

lemma mul_loop_correct:
  assumes ga: "good_digits a" and gb: "good_digits b"
  shows "good_digits (mul_loop a b) \<and> length (mul_loop a b) = length a + length b \<and>
         dval (mul_loop a b) = dval a * dval b"
proof -
  from mul_rows_fold [OF ga gb, of "length a"]
  have "mul_row_inv a b (length a) (mul_loop a b)" by (simp add: mul_loop_def)
  then show ?thesis
    by (simp add: mul_row_inv_def good_digits_def list_all_length)
qed

lemma operator_times_correct:
  assumes a: "canonical a" and b: "canonical b"
  shows "canonical (operator_times a b) \<and> val (operator_times a b) = val a * val b"
proof -
  let ?ds = "removeLeadingZeros (mul_loop (digits a) (digits b))"
  let ?q = "\<lparr>digits = ?ds, is_negative = (is_negative a \<noteq> is_negative b)\<rparr>"
  have ga: "good_digits (digits a)" "digits a \<noteq> []" and gb: "good_digits (digits b)"
    using a b by (simp_all add: canonical_def)
  from mul_loop_correct [OF ga(1) gb]
  have m: "good_digits (mul_loop (digits a) (digits b))"
    "length (mul_loop (digits a) (digits b)) = length (digits a) + length (digits b)"
    "dval (mul_loop (digits a) (digits b)) = dval (digits a) * dval (digits b)"
    by simp_all
  from m(2) ga(2) have "mul_loop (digits a) (digits b) \<noteq> []" by auto
  with m(1) have n: "norm_digits ?ds" by (intro removeLeadingZeros_norm)
  have dv: "dval ?ds = dval (digits a) * dval (digits b)" using m(3) by simp
  have t: "operator_times a b = (if isZero ?q then ?q\<lparr>is_negative := False\<rparr> else ?q)"
    by (simp add: operator_times_def Let_def)
  have "canonical (operator_times a b)"
    unfolding t using n by (auto simp: isZero_iff intro!: canonical_mk)
  moreover have "val (operator_times a b) = val a * val b"
  proof (cases "isZero ?q")
    case True
    then have "dval ?ds = 0" by (simp add: isZero_iff)
    with dv have "dval (digits a) * dval (digits b) = 0" by simp
    then have "val a * val b = 0" by (auto simp: val_def)
    with True \<open>dval ?ds = 0\<close> show ?thesis unfolding t by (simp add: val_def)
  next
    case False
    then show ?thesis unfolding t using dv by (simp add: val_def)
  qed
  ultimately show ?thesis by blast
qed

subsection \<open>The constructor from a native integer\<close>

lemma ll_digits_correct:
  "0 < k \<Longrightarrow> good_digits (ll_digits k) \<and> ll_digits k \<noteq> [] \<and> last (ll_digits k) \<noteq> 0 \<and>
     dval (ll_digits k) = k"
proof (induction k rule: ll_digits.induct)
  case (1 k)
  from "1.prems" have u: "ll_digits k = (k mod 10) # ll_digits (k div 10)"
    by (subst ll_digits.simps) (simp add: sdiv_nonneg smod_nonneg)
  have m: "0 \<le> k mod 10" "k mod 10 \<le> 9" by presburger+
  show ?case
  proof (cases "0 < k div 10")
    case True
    with "1.IH" [OF "1.prems"] "1.prems" have
      "good_digits (ll_digits (k div 10))" "ll_digits (k div 10) \<noteq> []"
      "last (ll_digits (k div 10)) \<noteq> 0" "dval (ll_digits (k div 10)) = k div 10"
      by (simp_all add: sdiv_nonneg)
    with m show ?thesis by (simp add: u)
  next
    case False
    with "1.prems" have z: "k div 10 = 0" by simp
    then have "ll_digits (k div 10) = []" by (subst ll_digits.simps) simp
    moreover from z "1.prems" have "k mod 10 = k"
      by (simp add: div_eq_0_iff)
    ultimately show ?thesis using m "1.prems" by (simp add: u)
  qed
qed

lemma BigNum_ll_correct:
  assumes "sint n \<noteq> - (2 ^ 63)"
  shows "canonical (BigNum_ll n) \<and> val (BigNum_ll n) = sint n"
proof -
  have r: "- (2 ^ 63) \<le> sint n" "sint n < 2 ^ 63"
    using sint_ge [of n] sint_lt [of n] by simp_all
  show ?thesis
  proof (cases "sint n < 0")
    case True
    have "sint (- n) = signed_take_bit 63 (- sint n)"
      by (simp add: sint_word_minus)
    also have "\<dots> = - sint n"
      using r assms by (intro signed_take_bit_int_eq_self) simp_all
    finally have s: "sint (- n) = - sint n" .
    with True have "- n \<noteq> 0" by auto
    moreover from ll_digits_correct [of "- sint n"] True
    have "good_digits (ll_digits (- sint n))" "ll_digits (- sint n) \<noteq> []"
      "last (ll_digits (- sint n)) \<noteq> 0" "dval (ll_digits (- sint n)) = - sint n"
      by simp_all
    ultimately show ?thesis using True s
      by (auto simp: BigNum_ll_def canonical_def val_def isZero_iff)
  next
    case False
    show ?thesis
    proof (cases "n = 0")
      case True
      then show ?thesis by (simp add: BigNum_ll_def canonical_def val_def isZero_iff)
    next
      case nz: False
      then have "sint n \<noteq> 0" by (metis signed_eq_0_iff)
      with False have "0 < sint n" by simp
      from ll_digits_correct [OF this]
      show ?thesis using False nz
        by (auto simp: BigNum_ll_def canonical_def val_def isZero_iff)
    qed
  qed
qed

lemma sint_small: "- (2 ^ 63) \<le> k \<Longrightarrow> k < 2 ^ 63 \<Longrightarrow> sint (word_of_int k :: 64 word) = k"
  by (simp add: sint_sbintrunc' signed_take_bit_int_eq_self)

lemma BigNum_ll_digit:
  assumes "0 \<le> d" "d \<le> 9"
  shows "canonical (BigNum_ll (word_of_int d))" "val (BigNum_ll (word_of_int d)) = d"
proof -
  from assms have "sint (word_of_int d :: 64 word) = d"
    by (intro sint_small) simp_all
  with BigNum_ll_correct [of "word_of_int d"] assms
  show "canonical (BigNum_ll (word_of_int d))" "val (BigNum_ll (word_of_int d)) = d"
    by simp_all
qed

lemma BigNum_ll_0: "BigNum_ll 0 = \<lparr>digits = [0], is_negative = False\<rparr>"
  by (simp add: BigNum_ll_def)

lemma BigNum_ll_numeral:
  "canonical (BigNum_ll 0)" "val (BigNum_ll 0) = 0"
  "canonical (BigNum_ll 1)" "val (BigNum_ll 1) = 1"
  "canonical (BigNum_ll 2)" "val (BigNum_ll 2) = 2"
  "canonical (BigNum_ll 10)" "val (BigNum_ll 10) = 10"
  using BigNum_ll_correct [of 0] BigNum_ll_correct [of 1] BigNum_ll_correct [of 2]
    BigNum_ll_correct [of 10]
  by simp_all

lemma BigNum_ll_1: "BigNum_ll 1 = \<lparr>digits = [1], is_negative = False\<rparr>"
  by (simp add: BigNum_ll_def ll_digits.simps signed_divide_int_def signed_modulo_int_def)

subsection \<open>Division\<close>

lemma div_while_correct:
  assumes d: "canonical d" and dpos: "0 < val d"
  shows "canonical r \<Longrightarrow> 0 \<le> val r \<Longrightarrow>
    \<exists>r'. div_while d r count = Some (r', count + val r div val d) \<and> canonical r' \<and>
          val r' = val r mod val d"
proof (induction "nat (val r)" arbitrary: r count rule: less_induct)
  case less
  show ?case
  proof (cases "val d \<le> val r")
    case False
    then have "div_while d r count = Some (r, count)"
      using less.prems d by (subst div_while.simps) (simp add: operator_ge_correct)
    moreover from False less.prems have "val r div val d = 0" "val r mod val d = val r"
      by (simp_all add: div_pos_pos_trivial)
    ultimately show ?thesis using less.prems by simp
  next
    case True
    from operator_minus_correct [OF less.prems(1) d]
    obtain r1 where r1: "operator_minus r d = Some r1" "canonical r1" "val r1 = val r - val d"
      by blast
    with True dpos have "nat (val r1) < nat (val r)" "0 \<le> val r1" by simp_all
    from less.hyps [OF this(1) r1(2) this(2), of "count + 1"]
    obtain r' where r': "div_while d r1 (count + 1) = Some (r', count + 1 + val r1 div val d)"
      "canonical r'" "val r' = val r1 mod val d" by blast
    have "div_while d r count = div_while d r1 (count + 1)"
      using True less.prems d r1(1) by (subst div_while.simps) (simp add: operator_ge_correct)
    moreover have "val r1 div val d = val r div val d - 1" "val r1 mod val d = val r mod val d"
      using dpos True div_pos_geq [of "val d" "val r"] by (simp_all add: r1(3))
    ultimately show ?thesis using r' by simp
  qed
qed

lemma smod_to_mod:
  fixes a b :: int
  assumes "b \<noteq> 0"
  shows "a mod \<bar>b\<bar> = (if a smod b < 0 then a smod b + \<bar>b\<bar> else a smod b)"
proof (cases "0 \<le> a")
  case True
  then have "a smod b = a mod \<bar>b\<bar>"
    by (cases "a = 0") (simp_all add: signed_modulo_int_def)
  moreover from assms have "0 \<le> a mod \<bar>b\<bar>" by simp
  ultimately show ?thesis by simp
next
  case False
  define t where "t = (- a) mod \<bar>b\<bar>"
  from False have s: "a smod b = - t"
    by (simp add: signed_modulo_int_def t_def)
  from assms have t: "0 \<le> t" "t < \<bar>b\<bar>" by (simp_all add: t_def)
  have "a mod \<bar>b\<bar> = (if t = 0 then 0 else \<bar>b\<bar> - t)"
    using zmod_zminus1_eq_if [of "- a" "\<bar>b\<bar>"] by (simp add: t_def)
  with s t show ?thesis by auto
qed

lemma div_for_correct:
  assumes d: "canonical d" and dpos: "0 < val d" and g: "good_digits ds"
  shows "n \<le> length ds \<Longrightarrow> canonical r \<Longrightarrow> 0 \<le> val r \<Longrightarrow> val r < val d \<Longrightarrow>
    \<exists>q' r' qs. div_for ds d n q r = Some (q', r') \<and> canonical r' \<and>
       0 \<le> val r' \<and> val r' < val d \<and>
       is_negative q' = is_negative q \<and> digits q' = qs @ digits q \<and>
       length qs = n \<and> good_digits qs \<and>
       dval qs * val d + val r' = val r * 10 ^ n + dval (take n ds)"
proof (induction n arbitrary: q r)
  case 0
  then show ?case by simp
next
  case (Suc n)
  from Suc.prems have n: "n < length ds" by simp
  from good_digits_nth [OF g n] have dg: "0 \<le> ds ! n" "ds ! n \<le> 9" by simp_all
  let ?t = "operator_times r (BigNum_ll 10)"
  have t: "canonical ?t" "val ?t = val r * 10"
    using operator_times_correct [OF Suc.prems(2) BigNum_ll_numeral(7)]
    by (simp_all add: BigNum_ll_numeral)
  from operator_plus_correct [OF t(1) BigNum_ll_digit(1) [OF dg]]
  obtain r1 where r1: "operator_plus ?t (BigNum_ll (word_of_int (ds ! n))) = Some r1"
    "canonical r1" "val r1 = val r * 10 + ds ! n"
    by (auto simp: t(2) BigNum_ll_digit(2) [OF dg])
  from r1(3) Suc.prems(3) dg have r1nn: "0 \<le> val r1" by simp
  from div_while_correct [OF d dpos r1(2) r1nn, of 0]
  obtain r2 where r2: "div_while d r1 0 = Some (r2, val r1 div val d)" "canonical r2"
    "val r2 = val r1 mod val d" by auto
  define c where "c = val r1 div val d"
  have "val r1 < 10 * val d" using Suc.prems(4) dg by (simp add: r1(3))
  moreover have "val d * c + val r1 mod val d = val r1" by (simp add: c_def)
  moreover have "0 \<le> val r1 mod val d" using dpos by simp
  ultimately have "val d * c < val d * 10" by linarith
  then have "c < 10" using dpos by (simp add: mult_less_cancel_left_pos)
  moreover have "0 \<le> c" using r1nn dpos by (simp add: c_def pos_imp_zdiv_nonneg_iff)
  ultimately have cd: "0 \<le> c" "c \<le> 9" by simp_all
  have r2b: "0 \<le> val r2" "val r2 < val d" using dpos by (simp_all add: r2(3))
  have split: "c * val d + val r2 = val r1" by (simp add: c_def r2(3))
  from Suc.IH [OF _ r2(2) r2b, of "q\<lparr>digits := c # digits q\<rparr>"] n
  obtain q' r' qs where
    IH: "div_for ds d n (q\<lparr>digits := c # digits q\<rparr>) r2 = Some (q', r')" "canonical r'"
      "0 \<le> val r'" "val r' < val d" "is_negative q' = is_negative q"
      "digits q' = qs @ c # digits q" "length qs = n" "good_digits qs"
      "dval qs * val d + val r' = val r2 * 10 ^ n + dval (take n ds)"
    by auto
  have "div_for ds d (Suc n) q r = Some (q', r')"
    using r1(1) r2(1) IH(1) by (simp add: c_def)
  moreover have "digits q' = (qs @ [c]) @ digits q" using IH(6) by simp
  moreover have "length (qs @ [c]) = Suc n" using IH(7) by simp
  moreover have "good_digits (qs @ [c])" using IH(8) cd by simp
  moreover have "dval (qs @ [c]) * val d + val r' = val r * 10 ^ Suc n + dval (take (Suc n) ds)"
  proof -
    have "dval (qs @ [c]) * val d + val r'
        = (dval qs * val d + val r') + 10 ^ n * (c * val d)"
      by (simp add: dval_snoc IH(7) algebra_simps)
    also have "\<dots> = 10 ^ n * (c * val d + val r2) + dval (take n ds)"
      unfolding IH(9) by (simp add: algebra_simps)
    also have "\<dots> = 10 ^ n * (val r * 10 + ds ! n) + dval (take n ds)"
      unfolding split r1(3) ..
    also have "\<dots> = val r * 10 ^ Suc n + dval (take (Suc n) ds)"
      using n by (simp add: dval_take_step algebra_simps)
    finally show ?thesis .
  qed
  ultimately show ?case using IH(2,3,4,5) by blast
qed

lemma canonical_clear_sign:
  assumes "canonical a"
  shows "canonical (a\<lparr>is_negative := False\<rparr>)" "val (a\<lparr>is_negative := False\<rparr>) = \<bar>val a\<bar>"
  using assms canonical_abs [OF assms] by (simp_all add: canonical_def isZero_iff val_def)

lemma sdiv_sign:
  fixes a b :: int
  shows "a \<noteq> 0 \<Longrightarrow> b \<noteq> 0 \<Longrightarrow>
    a sdiv b = (if (a < 0) \<noteq> (b < 0) then - (\<bar>a\<bar> div \<bar>b\<bar>) else \<bar>a\<bar> div \<bar>b\<bar>)"
  by (auto simp: signed_divide_int_def sgn_if)

lemma val_mk: "val \<lparr>digits = ds, is_negative = n\<rparr> = (if n then - dval ds else dval ds)"
  by (simp add: val_def)

lemma record_rebuild:
  "q\<lparr>digits := ds, is_negative := n\<rparr> = \<lparr>digits = ds, is_negative = n\<rparr>"
  by (cases q) simp

lemma operator_div_correct:
  assumes a: "canonical a" and b: "canonical b" and nz: "val b \<noteq> 0"
  shows "\<exists>q. operator_div a b = Some (Inr q) \<and> canonical q \<and> val q = val a sdiv val b"
proof -
  from nz b have zb: "\<not> isZero b" by (simp add: canonical_isZero)
  show ?thesis
  proof (cases "isZero a")
    case True
    with a have "val a = 0" by (simp add: canonical_isZero)
    with True zb show ?thesis
      by (simp add: operator_div_def BigNum_ll_numeral)
  next
    case za: False
    with a have anz: "val a \<noteq> 0" by (simp add: canonical_isZero)
    let ?A = "a\<lparr>is_negative := False\<rparr>" and ?D = "b\<lparr>is_negative := False\<rparr>"
    note A = canonical_clear_sign [OF a] and D = canonical_clear_sign [OF b]
    have lt: "operator_lt ?A ?D = Some (\<bar>val a\<bar> < \<bar>val b\<bar>)"
      using operator_lt_correct [OF A(1) D(1)] by (simp add: A(2) D(2))
    show ?thesis
    proof (cases "\<bar>val a\<bar> < \<bar>val b\<bar>")
      case True
      then have "val a sdiv val b = 0"
        by (simp add: signed_divide_int_def div_pos_pos_trivial)
      with True za zb lt show ?thesis
        by (simp add: operator_div_def BigNum_ll_numeral)
    next
      case False
      have dpos: "0 < val ?D" using nz by (simp add: D(2))
      have g: "good_digits (digits a)" using a by (simp add: canonical_def)
      have z: "canonical (BigNum_ll 0)" "0 \<le> val (BigNum_ll 0)" "val (BigNum_ll 0) < val ?D"
        using dpos by (simp_all add: BigNum_ll_numeral)
      from div_for_correct [OF D(1) dpos g le_refl z, of "BigNum_ll 0"]
      obtain q' r' qs where
        df: "div_for (digits a) ?D (length (digits a)) (BigNum_ll 0) (BigNum_ll 0) = Some (q', r')"
        and r0: "0 \<le> val r'" "val r' < val ?D"
        and q0: "digits q' = qs @ digits (BigNum_ll 0)" "good_digits qs"
        and e0: "dval qs * val ?D + val r'
           = val (BigNum_ll 0) * 10 ^ length (digits a) + dval (take (length (digits a)) (digits a))"
        by blast
      have r': "0 \<le> val r'" "val r' < \<bar>val b\<bar>" using r0 by (simp_all add: D(2))
      have q': "digits q' = qs @ [0]" "good_digits qs" using q0 by (simp_all add: BigNum_ll_0)
      have e: "dval qs * \<bar>val b\<bar> + val r' = \<bar>val a\<bar>"
        using e0 canonical_abs [OF a] by (simp add: D(2) BigNum_ll_numeral)
      define k where "k = \<bar>val a\<bar> div \<bar>val b\<bar>"
      have k: "dval qs = k"
        unfolding k_def using e r' by (intro int_div_pos_eq [symmetric]) (simp_all add: ac_simps)
      define ds where "ds = removeLeadingZeros (digits q')"
      have n: "norm_digits ds"
        unfolding ds_def using q' by (intro removeLeadingZeros_norm) simp_all
      have dv: "dval ds = k"
        unfolding ds_def using q' k by (simp add: dval_snoc)
      let ?s = "is_negative a \<noteq> is_negative b"
      let ?q = "\<lparr>digits = ds, is_negative = ?s\<rparr>"
      let ?res = "if isZero ?q then ?q\<lparr>is_negative := False\<rparr> else ?q"
      have "operator_div a b = Some (Inr ?res)"
        using za zb lt False df
        by (simp add: operator_div_def Let_def ds_def [symmetric] record_rebuild)
      moreover have "canonical ?res"
        using n by (auto simp: isZero_iff intro!: canonical_mk)
      moreover have "val ?res = val a sdiv val b"
      proof (cases "isZero ?q")
        case True
        then have d0: "dval ds = 0" by (simp add: isZero_iff)
        with dv have "\<bar>val a\<bar> div \<bar>val b\<bar> = 0" by (simp add: k_def)
        then have "val a sdiv val b = 0" by (simp add: signed_divide_int_def)
        moreover have "val ?res = 0" using True d0 by (simp add: val_def)
        ultimately show ?thesis by simp
      next
        case False
        have "is_negative a = (val a < 0)" "is_negative b = (val b < 0)"
          using a b by (simp_all add: canonical_neg_iff)
        with False show ?thesis
          using dv by (simp add: val_mk sdiv_sign [OF anz nz] k_def)
      qed
      ultimately show ?thesis by blast
    qed
  qed
qed

lemma operator_mod_correct:
  assumes a: "canonical a" and b: "canonical b" and nz: "val b \<noteq> 0"
  shows "\<exists>r. operator_mod a b = Some (Inr r) \<and> canonical r \<and> val r = val a mod \<bar>val b\<bar>"
proof -
  from nz b have zb: "\<not> isZero b" by (simp add: canonical_isZero)
  from operator_div_correct [OF a b nz]
  obtain q where q: "operator_div a b = Some (Inr q)" "canonical q" "val q = val a sdiv val b"
    by blast
  note t = operator_times_correct [OF q(2) b]
  from operator_minus_correct [OF a conjunct1 [OF t]]
  obtain r0 where r0: "operator_minus a (operator_times q b) = Some r0" "canonical r0"
    "val r0 = val a - val a sdiv val b * val b"
    using t q(3) by auto
  then have v0: "val r0 = val a smod val b"
    by (simp add: minus_sdiv_mult_eq_smod)
  let ?m = "if is_negative b then operator_neg b else b"
  have m: "canonical ?m" "val ?m = \<bar>val b\<bar>"
    using b by (auto simp: operator_neg_canonical operator_neg_val canonical_neg_iff)
  have u: "operator_mod a b =
      (if is_negative r0 then lift (operator_plus r0 ?m) else Some (Inr r0))"
    using zb q(1) r0(1) by (simp add: operator_mod_def rbind_def lift_def)
  show ?thesis
  proof (cases "is_negative r0")
    case True
    then have neg: "val a smod val b < 0" using r0(2) v0 by (simp add: canonical_neg_iff)
    from operator_plus_correct [OF r0(2) m(1)]
    obtain r where r: "operator_plus r0 ?m = Some r" "canonical r" "val r = val r0 + \<bar>val b\<bar>"
      using m(2) by auto
    with True u neg v0 show ?thesis
      by (simp add: lift_def smod_to_mod [OF nz])
  next
    case False
    then have "\<not> val a smod val b < 0" using r0(2) v0 by (simp add: canonical_neg_iff)
    with False u r0(2) v0 show ?thesis
      by (simp add: smod_to_mod [OF nz])
  qed
qed

lemma operator_div_zero: "isZero b \<Longrightarrow> operator_div a b = Some (Inl DivisionByZero)"
  by (simp add: operator_div_def)

lemma operator_mod_zero: "isZero b \<Longrightarrow> operator_mod a b = Some (Inl DivisionByZero)"
  by (simp add: operator_mod_def)

subsection \<open>Modular addition and multiplication\<close>

lemma addMod_correct:
  assumes "canonical a" "canonical b" "canonical m" "val m \<noteq> 0"
  shows "\<exists>r. addMod a b m = Some (Inr r) \<and> canonical r \<and> val r = (val a + val b) mod \<bar>val m\<bar>"
proof -
  from operator_plus_correct [OF assms(1,2)]
  obtain s where s: "operator_plus a b = Some s" "canonical s" "val s = val a + val b" by blast
  from operator_mod_correct [OF s(2) assms(3,4)] s(1,3)
  show ?thesis by (simp add: addMod_def rbind_def lift_def)
qed

lemma mulMod_correct:
  assumes "canonical a" "canonical b" "canonical m" "val m \<noteq> 0"
  shows "\<exists>r. mulMod a b m = Some (Inr r) \<and> canonical r \<and> val r = (val a * val b) mod \<bar>val m\<bar>"
  using operator_mod_correct [OF conjunct1 [OF operator_times_correct [OF assms(1,2)]] assms(3,4)]
    operator_times_correct [OF assms(1,2)]
  by (simp add: mulMod_def)

subsection \<open>Modular exponentiation\<close>

lemma parity_digit:
  assumes "canonical e" and "digits e = d0 # ds"
  shows "(d0 AND 1 \<noteq> 0) = odd (val e)"
proof -
  have "d0 AND 1 = d0 mod 2" by (simp add: and_one_eq)
  then have "(d0 AND 1 \<noteq> 0) = odd d0" by (simp add: odd_iff_mod_2_eq_one)
  moreover have "odd (val e) = odd d0"
    using assms(2) by (simp add: val_def)
  ultimately show ?thesis by simp
qed

lemma pow_step:
  fixes r b m :: int
  shows "((r * b ^ c) mod m * (b * b mod m) ^ k) mod m = (r * b ^ (2 * k + c)) mod m"
proof -
  have "((r * b ^ c) mod m * (b * b mod m) ^ k) mod m
      = ((r * b ^ c) mod m * ((b * b mod m) ^ k mod m)) mod m"
    by (simp add: mod_mult_right_eq)
  also have "(b * b mod m) ^ k mod m = (b * b) ^ k mod m"
    by (simp add: power_mod)
  also have "((r * b ^ c) mod m * ((b * b) ^ k mod m)) mod m = ((r * b ^ c) * (b * b) ^ k) mod m"
    by (simp add: mod_mult_eq)
  also have "(b * b) ^ k = b ^ (2 * k)"
    by (simp add: power_mult power2_eq_square)
  also have "(r * b ^ c) * b ^ (2 * k) = r * b ^ (2 * k + c)"
    by (simp add: power_add)
  finally show ?thesis .
qed

lemma half_abs:
  fixes x :: int
  assumes "x \<noteq> 0"
  shows "nat \<bar>x sdiv 2\<bar> < nat \<bar>x\<bar>"
    and "nat \<bar>x\<bar> = 2 * nat \<bar>x sdiv 2\<bar> + (if odd x then 1 else 0)"
proof -
  have h: "\<bar>x sdiv 2\<bar> = \<bar>x\<bar> div 2"
    using assms by (simp add: signed_divide_int_def abs_mult abs_sgn_eq)
  from assms show "nat \<bar>x sdiv 2\<bar> < nat \<bar>x\<bar>"
    unfolding h by simp
  have "\<bar>x\<bar> = 2 * (\<bar>x\<bar> div 2) + (if odd x then 1 else 0)"
    by (simp add: odd_iff_mod_2_eq_one) presburger
  then have "nat \<bar>x\<bar> = nat (2 * (\<bar>x\<bar> div 2) + (if odd x then 1 else 0))" by simp
  also have "\<dots> = 2 * nat (\<bar>x\<bar> div 2) + (if odd x then 1 else 0)"
    by (simp add: nat_add_distrib nat_mult_distrib)
  finally show "nat \<bar>x\<bar> = 2 * nat \<bar>x sdiv 2\<bar> + (if odd x then 1 else 0)"
    unfolding h .
qed

lemma powMod_loop_correct:
  assumes m: "canonical m" and mpos: "0 < val m"
  shows "canonical res \<Longrightarrow> 0 \<le> val res \<Longrightarrow> val res < val m \<Longrightarrow> canonical base \<Longrightarrow>
    canonical e \<Longrightarrow>
    \<exists>r. powMod_loop m res base e = Some (Inr r) \<and> canonical r \<and>
         val r = (val res * val base ^ nat \<bar>val e\<bar>) mod val m"
proof (induction "nat \<bar>val e\<bar>" arbitrary: res base e rule: less_induct)
  case less
  have mnz: "val m \<noteq> 0" and mabs: "\<bar>val m\<bar> = val m" using mpos by simp_all
  show ?case
  proof (cases "isZero e")
    case True
    then have "powMod_loop m res base e = Some (Inr res)"
      by (subst powMod_loop.simps) simp
    moreover from True less.prems(5) have "val e = 0" by (simp add: canonical_isZero)
    ultimately show ?thesis using less.prems by (simp add: mod_pos_pos_trivial)
  next
    case False
    with less.prems(5) have enz: "val e \<noteq> 0" by (simp add: canonical_isZero)
    from less.prems(5) obtain d0 ds where dg: "digits e = d0 # ds"
      by (cases "digits e") (auto simp: canonical_def)
    define c :: nat where "c = (if odd (val e) then 1 else 0)"
    have "\<exists>res1. (if d0 AND 1 \<noteq> 0 then mulMod res base m else Some (Inr res)) = Some (Inr res1)
        \<and> canonical res1 \<and> val res1 = (val res * val base ^ c) mod val m"
    proof (cases "odd (val e)")
      case True
      with mulMod_correct [OF less.prems(1,4) m mnz] show ?thesis
        by (simp add: parity_digit [OF less.prems(5) dg] c_def mabs)
    next
      case False
      with less.prems(1,2,3) show ?thesis
        by (simp add: parity_digit [OF less.prems(5) dg] c_def mod_pos_pos_trivial)
    qed
    then obtain res1 where res1:
      "(if d0 AND 1 \<noteq> 0 then mulMod res base m else Some (Inr res)) = Some (Inr res1)"
      "canonical res1" "val res1 = (val res * val base ^ c) mod val m"
      by blast
    have res1b: "0 \<le> val res1" "val res1 < val m" using mpos by (simp_all add: res1(3))
    from operator_div_correct [OF less.prems(5) BigNum_ll_numeral(5)]
    obtain e1 where e1: "operator_div e (BigNum_ll 2) = Some (Inr e1)" "canonical e1"
      "val e1 = val e sdiv 2"
      by (auto simp: BigNum_ll_numeral)
    from mulMod_correct [OF less.prems(4,4) m mnz]
    obtain base1 where base1: "mulMod base base m = Some (Inr base1)" "canonical base1"
      "val base1 = (val base * val base) mod val m"
      by (auto simp: mabs)
    note h = half_abs [OF enz]
    from less.hyps [OF _ res1(2) res1b base1(2) e1(2)] h(1)
    obtain r where r: "powMod_loop m res1 base1 e1 = Some (Inr r)" "canonical r"
      "val r = (val res1 * val base1 ^ nat \<bar>val e1\<bar>) mod val m"
      by (auto simp: e1(3))
    have "powMod_loop m res base e = powMod_loop m res1 base1 e1"
      by (subst powMod_loop.simps) (simp add: False dg res1(1) e1(1) base1(1))
    moreover have "val r = (val res * val base ^ nat \<bar>val e\<bar>) mod val m"
      unfolding r(3) res1(3) base1(3) e1(3) h(2) c_def [symmetric] by (rule pow_step)
    ultimately show ?thesis using r by simp
  qed
qed

lemma canonical_isOne: "canonical a \<Longrightarrow> isOne a = (val a = 1)"
proof -
  assume c: "canonical a"
  have one: "canonical \<lparr>digits = [1], is_negative = False\<rparr>"
    by (simp add: canonical_def isZero_def)
  have "isOne a = (a = \<lparr>digits = [1], is_negative = False\<rparr>)"
    by (cases a, cases "digits a") (auto simp: isOne_def)
  also have "\<dots> = (val a = 1)"
    using canonical_inj [OF c one] by (auto simp: val_def)
  finally show ?thesis .
qed

lemma powMod_correct:
  assumes a: "canonical a" and e: "canonical e" and m: "canonical m" and mpos: "0 < val m"
  shows "\<exists>r. powMod a e m = Some (Inr r) \<and> canonical r \<and>
              val r = (val a ^ nat \<bar>val e\<bar>) mod val m"
proof (cases "val m = 1")
  case True
  with m show ?thesis
    by (simp add: powMod_def canonical_isOne BigNum_ll_numeral)
next
  case False
  with mpos have m1: "1 < val m" and mnz: "val m \<noteq> 0" by simp_all
  from operator_mod_correct [OF a m mnz] mpos
  obtain base where base: "operator_mod a m = Some (Inr base)" "canonical base"
    "val base = val a mod val m" by auto
  from powMod_loop_correct [OF m mpos BigNum_ll_numeral(3) _ _ base(2) e] m1
  obtain r where r: "powMod_loop m (BigNum_ll 1) base e = Some (Inr r)" "canonical r"
    "val r = (val (BigNum_ll 1) * val base ^ nat \<bar>val e\<bar>) mod val m"
    by (auto simp: BigNum_ll_numeral)
  have "powMod a e m = Some (Inr r)"
    using False m base(1) r(1) by (simp add: powMod_def canonical_isOne)
  moreover have "val r = (val a ^ nat \<bar>val e\<bar>) mod val m"
    by (simp add: r(3) base(3) BigNum_ll_numeral power_mod)
  ultimately show ?thesis using r(2) by simp
qed

subsection \<open>Extended Euclid and the modular inverse\<close>

lemma extendedGCD_nonneg:
  "canonical a \<Longrightarrow> canonical b \<Longrightarrow> 0 \<le> val a \<Longrightarrow> 0 \<le> val b \<Longrightarrow>
    \<exists>g x y. extendedGCD a b = Some (Inr (g, x, y)) \<and> canonical g \<and> canonical x \<and> canonical y \<and>
      val g = gcd (val a) (val b) \<and> val a * val x + val b * val y = val g"
proof (induction "nat (val b)" arbitrary: a b rule: less_induct)
  case less
  show ?case
  proof (cases "isZero b")
    case True
    then have "extendedGCD a b = Some (Inr (a, BigNum_ll 1, BigNum_ll 0))"
      by (subst extendedGCD.simps) simp
    moreover from True less.prems(2) have "val b = 0" by (simp add: canonical_isZero)
    ultimately show ?thesis using less.prems by (simp add: BigNum_ll_numeral)
  next
    case False
    with less.prems have bpos: "0 < val b" and bnz: "val b \<noteq> 0"
      by (simp_all add: canonical_isZero)
    from operator_mod_correct [OF less.prems(1,2) bnz] bpos
    obtain r where r: "operator_mod a b = Some (Inr r)" "canonical r" "val r = val a mod val b"
      by auto
    have rb: "0 \<le> val r" "nat (val r) < nat (val b)" using bpos by (simp_all add: r(3))
    from less.hyps [OF rb(2) less.prems(2) r(2) less.prems(4) rb(1)]
    obtain g x1 y1 where rec: "extendedGCD b r = Some (Inr (g, x1, y1))"
      "canonical g" "canonical x1" "canonical y1"
      "val g = gcd (val b) (val r)" "val b * val x1 + val r * val y1 = val g"
      by blast
    from operator_div_correct [OF less.prems(1,2) bnz]
    obtain q where q: "operator_div a b = Some (Inr q)" "canonical q" "val q = val a div val b"
      using less.prems(3) bpos by (auto simp: signed_divide_int_def sgn_if)
    note t = operator_times_correct [OF q(2) rec(4)]
    from operator_minus_correct [OF rec(3) conjunct1 [OF t]]
    obtain y where y: "operator_minus x1 (operator_times q y1) = Some y" "canonical y"
      "val y = val x1 - val a div val b * val y1"
      using t q(3) by auto
    have "extendedGCD a b = Some (Inr (g, y1, y))"
      by (subst extendedGCD.simps) (simp add: False r(1) rec(1) q(1) y(1))
    moreover have "val g = gcd (val a) (val b)"
      unfolding rec(5) r(3) by (metis gcd.commute gcd_red_int)
    moreover have "val a * val y1 + val b * val y = val g"
    proof -
      have "val a * val y1 + val b * val y
          = val b * val x1 + (val a - val b * (val a div val b)) * val y1"
        by (simp add: y(3) algebra_simps)
      also have "val a - val b * (val a div val b) = val a mod val b"
        by (simp add: minus_mult_div_eq_mod)
      finally show ?thesis using rec(6) by (simp add: r(3))
    qed
    ultimately show ?thesis using rec(2,4) y(2) by simp
  qed
qed

lemma modInverse_correct:
  assumes a: "canonical a" and m: "canonical m" and m1: "0 < val m"
  shows "(gcd (val a mod val m) (val m) \<noteq> 1 \<longrightarrow> modInverse a m = Some (Inl NoInverse)) \<and>
         (gcd (val a mod val m) (val m) = 1 \<longrightarrow>
            (\<exists>r. modInverse a m = Some (Inr r) \<and> canonical r \<and> 0 \<le> val r \<and> val r < val m \<and>
                  (val a * val r) mod val m = 1 mod val m))"
proof -
  from m1 have mnz: "val m \<noteq> 0" and mabs: "\<bar>val m\<bar> = val m" and mnn: "0 \<le> val m" by simp_all
  from operator_mod_correct [OF a m mnz]
  obtain am where am: "operator_mod a m = Some (Inr am)" "canonical am" "val am = val a mod val m"
    by (auto simp: mabs)
  have amnn: "0 \<le> val am" using m1 by (simp add: am(3))
  from extendedGCD_nonneg [OF am(2) m amnn mnn]
  obtain g x y where eg: "extendedGCD am m = Some (Inr (g, x, y))"
    "canonical g" "canonical x" "canonical y"
    "val g = gcd (val am) (val m)" "val am * val x + val m * val y = val g"
    by blast
  have u: "modInverse a m =
      (if \<not> isOne g then Some (Inl NoInverse)
       else rbind (operator_mod x m) (\<lambda>result.
              if is_negative result then lift (operator_plus result m) else Some (Inr result)))"
    by (simp add: modInverse_def am(1) eg(1))
  show ?thesis
  proof (cases "val g = 1")
    case False
    with u eg(2,5) show ?thesis by (simp add: canonical_isOne am(3))
  next
    case True
    from operator_mod_correct [OF eg(3) m mnz]
    obtain r where r: "operator_mod x m = Some (Inr r)" "canonical r" "val r = val x mod val m"
      by (auto simp: mabs)
    have rb: "0 \<le> val r" "val r < val m" using m1 by (simp_all add: r(3))
    then have "\<not> is_negative r" using r(2) by (simp add: canonical_neg_iff)
    with u True eg(2) r(1) have res: "modInverse a m = Some (Inr r)"
      by (simp add: canonical_isOne)
    have "(val a * val r) mod val m = (val a * val x) mod val m"
      by (simp add: r(3) mod_mult_right_eq)
    also have "\<dots> = (val am * val x) mod val m"
      by (simp add: am(3) mod_mult_left_eq)
    also have "\<dots> = (val am * val x + val m * val y) mod val m"
      by simp
    also have "\<dots> = 1 mod val m" using eg(6) True by simp
    finally have "(val a * val r) mod val m = 1 mod val m" .
    with res r(2) rb True eg(5) show ?thesis by (simp add: am(3))
  qed
qed

subsection \<open>Parsing and rendering\<close>

lemma int_of_char: "int (of_char c) = (of_char c :: int)"
  by (simp add: of_nat_of_char)

lemma is_digit_char_int: "is_digit_char c = (48 \<le> (of_char c :: int) \<and> (of_char c :: int) \<le> 57)"
proof -
  have "is_digit_char c = (48 \<le> int (of_char c) \<and> int (of_char c) \<le> 57)"
    unfolding is_digit_char_def by linarith
  then show ?thesis by (simp only: int_of_char)
qed

lemma digit_char_code:
  assumes "0 \<le> d" "d \<le> 9"
  shows "(of_char (char_of (d + 48)) :: int) = d + 48"
  using assms by (simp add: of_char_of mod_pos_pos_trivial)

lemma digit_char_props:
  assumes "0 \<le> d" "d \<le> 9"
  shows "is_digit_char (char_of (d + 48))"
    and "int (of_char (char_of (d + 48))) - 48 = d"
    and "char_of (d + 48) \<noteq> CHR ''-''"
proof -
  note c = digit_char_code [OF assms]
  show "is_digit_char (char_of (d + 48))"
    using assms by (simp add: is_digit_char_int c)
  show "int (of_char (char_of (d + 48))) - 48 = d"
    unfolding int_of_char c by simp
  show "char_of (d + 48) \<noteq> CHR ''-''"
  proof
    assume "char_of (d + 48) = CHR ''-''"
    then have "(of_char (char_of (d + 48)) :: int) = of_char CHR ''-''" by simp
    with c assms show False by simp
  qed
qed

lemma parse_fold_chars:
  "fold (\<lambda>c ds. if is_digit_char c then ds @ [int (of_char c) - 48] else ds) cs acc
     = acc @ map (\<lambda>c. int (of_char c) - 48) (filter is_digit_char cs)"
  by (induction cs arbitrary: acc) simp_all

lemma parse_fold:
  "fold (\<lambda>i ds. if is_digit_char (str ! i) then ds @ [int (of_char (str ! i)) - 48] else ds)
        (rev [start..<length str]) []
     = map (\<lambda>c. int (of_char c) - 48) (filter is_digit_char (rev (drop start str)))"
proof -
  have "map ((!) str) [start..<length str] = drop start str"
    by (rule nth_equalityI) simp_all
  then have m: "map ((!) str) (rev [start..<length str]) = rev (drop start str)"
    by (simp add: rev_map [symmetric])
  have "fold (\<lambda>i ds. if is_digit_char (str ! i) then ds @ [int (of_char (str ! i)) - 48] else ds)
          (rev [start..<length str]) []
      = fold (\<lambda>c ds. if is_digit_char c then ds @ [int (of_char c) - 48] else ds)
          (map ((!) str) (rev [start..<length str])) []"
    by (simp add: fold_map comp_def)
  then show ?thesis by (simp add: m parse_fold_chars)
qed

lemma parsed_digits_good:
  "good_digits (map (\<lambda>c. int (of_char c) - 48) (filter is_digit_char cs))"
  by (induction cs) (auto simp: is_digit_char_int int_of_char)

lemma BigNum_string_alt:
  "BigNum_string str =
     (if str = [] then \<lparr>digits = [0], is_negative = False\<rparr>
      else
        let neg = (str ! 0 = CHR ''-'');
            start = (if neg then 1 else 0);
            ds = map (\<lambda>c. int (of_char c) - 48) (filter is_digit_char (rev (drop start str)));
            r = (if ds = [] then \<lparr>digits = [0], is_negative = False\<rparr>
                 else \<lparr>digits = ds, is_negative = neg\<rparr>);
            r = r\<lparr>digits := removeLeadingZeros (digits r)\<rparr>
        in if isZero r then r\<lparr>is_negative := False\<rparr> else r)"
  unfolding BigNum_string_def parse_fold ..

lemma BigNum_string_canonical: "canonical (BigNum_string str)"
proof (cases "str = []")
  case True
  then show ?thesis by (simp add: BigNum_string_def canonical_def isZero_def)
next
  case False
  define neg where "neg = (str ! 0 = CHR ''-'')"
  define ds where "ds = map (\<lambda>c. int (of_char c) - 48)
    (filter is_digit_char (rev (drop (if neg then 1 else 0) str)))"
  define r where "r = (if ds = [] then \<lparr>digits = [0], is_negative = False\<rparr>
    else \<lparr>digits = ds, is_negative = neg\<rparr>)"
  define r' where "r' = r\<lparr>digits := removeLeadingZeros (digits r)\<rparr>"
  have u: "BigNum_string str = (if isZero r' then r'\<lparr>is_negative := False\<rparr> else r')"
    unfolding r'_def r_def ds_def neg_def BigNum_string_alt Let_def using False by simp
  have "good_digits ds" unfolding ds_def by (rule parsed_digits_good)
  then have "good_digits (digits r)" "digits r \<noteq> []" by (simp_all add: r_def)
  then have "norm_digits (digits r')"
    unfolding r'_def by (simp add: removeLeadingZeros_norm)
  then show ?thesis
    unfolding u by (auto simp: canonical_def norm_digits_def isZero_iff)
qed

lemma toString_alt:
  "toString a = (if is_negative a \<and> \<not> isZero a then ''-'' else []) @
     map (\<lambda>d. char_of (d + 48)) (rev (digits a))"
proof -
  have "map (\<lambda>i. char_of (digits a ! i + 48)) (rev [0..<length (digits a)])
      = map (\<lambda>d. char_of (d + 48)) (map ((!) (digits a)) (rev [0..<length (digits a)]))"
    by simp
  also have "map ((!) (digits a)) (rev [0..<length (digits a)]) = rev (digits a)"
    by (simp add: rev_map [symmetric] map_nth)
  finally show ?thesis by (simp add: toString_def)
qed

lemma parse_rendered_digits:
  assumes "good_digits ds"
  shows "map (\<lambda>c. int (of_char c) - 48)
           (filter is_digit_char (rev (map (\<lambda>d. char_of (d + 48)) (rev ds)))) = ds"
proof -
  have "rev (map (\<lambda>d. char_of (d + 48)) (rev ds)) = map (\<lambda>d. char_of (d + 48 :: int)) ds"
    by (simp add: rev_map)
  moreover have "filter is_digit_char (map (\<lambda>d. char_of (d + 48 :: int)) ds)
      = map (\<lambda>d. char_of (d + 48)) ds"
    using assms by (induction ds) (simp_all add: digit_char_props)
  moreover have "map (\<lambda>c. int (of_char c) - 48) (map (\<lambda>d. char_of (d + 48 :: int)) ds) = ds"
    using assms by (induction ds) (simp_all add: digit_char_props)
  ultimately show ?thesis by simp
qed

lemma parse_toString:
  assumes c: "canonical a"
  shows "BigNum_string (toString a) = a"
proof -
  from c have g: "good_digits (digits a)" and ne: "digits a \<noteq> []"
    and n: "norm_digits (digits a)" and z: "\<not> (isZero a \<and> is_negative a)"
    by (auto simp: canonical_def norm_digits_def)
  let ?body = "map (\<lambda>d. char_of (d + 48)) (rev (digits a))"
  from ne have bne: "?body \<noteq> []" by simp
  have hd_body: "?body ! 0 \<noteq> CHR ''-''"
  proof -
    from ne have "?body ! 0 = char_of (last (digits a) + 48)"
      by (simp add: nth_map rev_nth last_conv_nth)
    moreover from g ne have "0 \<le> last (digits a) \<and> last (digits a) \<le> 9"
      using good_digits_nth [of "digits a" "length (digits a) - 1"]
      by (simp add: last_conv_nth)
    ultimately show ?thesis by (simp add: digit_char_props)
  qed
  have fne: "filter is_digit_char (rev ?body) \<noteq> []"
  proof
    assume "filter is_digit_char (rev ?body) = []"
    then have "map (\<lambda>c. int (of_char c) - 48) (filter is_digit_char (rev ?body)) = []"
      by simp
    with parse_rendered_digits [OF g] ne show False by simp
  qed
  show ?thesis
  proof (cases "is_negative a")
    case True
    with z have s: "toString a = CHR ''-'' # ?body" by (auto simp: toString_alt)
    have "BigNum_string (toString a) =
        (let r = \<lparr>digits = removeLeadingZeros (digits a), is_negative = True\<rparr>
         in if isZero r then r\<lparr>is_negative := False\<rparr> else r)"
      unfolding s using ne fne
      by (simp add: BigNum_string_alt parse_rendered_digits [OF g] Let_def)
    moreover from True z have "digits a \<noteq> [0]" by (simp add: isZero_iff)
    ultimately show ?thesis
      using True n by (simp add: removeLeadingZeros_id Let_def isZero_iff)
  next
    case False
    then have s: "toString a = ?body" by (simp add: toString_alt)
    have "BigNum_string (toString a) =
        (let r = \<lparr>digits = removeLeadingZeros (digits a), is_negative = False\<rparr>
         in if isZero r then r\<lparr>is_negative := False\<rparr> else r)"
      unfolding s using ne hd_body fne
      by (simp add: BigNum_string_alt parse_rendered_digits [OF g] Let_def)
    with False n show ?thesis
      by (simp add: removeLeadingZeros_id Let_def isZero_iff)
  qed
qed

subsection \<open>Consequences used by the claims\<close>

lemma naive_pow_correct:
  "canonical base \<Longrightarrow> canonical (naive_pow base n) \<and> val (naive_pow base n) = val base ^ n"
proof (induction n)
  case 0
  then show ?case by (simp add: BigNum_ll_numeral)
next
  case (Suc n)
  then have "canonical (naive_pow base n)" "val (naive_pow base n) = val base ^ n"
    by simp_all
  with operator_times_correct [OF this(1) Suc.prems] show ?case by simp
qed

lemma smod_neg_iff:
  fixes a b :: int
  assumes "b \<noteq> 0"
  shows "(a smod b < 0) = (a < 0 \<and> \<not> b dvd a)"
proof -
  have "0 \<le> \<bar>a\<bar> mod \<bar>b\<bar>" using assms by simp
  moreover have "(\<bar>a\<bar> mod \<bar>b\<bar> = 0) = (b dvd a)"
    by (simp add: mod_eq_0_iff_dvd)
  ultimately show ?thesis
    by (cases "a < 0"; cases "a = 0")
       (auto simp: signed_modulo_int_def sgn_if order_class.le_less)
qed

lemma division_identity_value:
  assumes a: "canonical a" and b: "canonical b" and nz: "val b \<noteq> 0"
  shows "\<exists>s. division_identity_lhs a b = Some (Inr s) \<and> canonical s \<and>
              val s = (if val a < 0 \<and> \<not> val b dvd val a then val a + \<bar>val b\<bar> else val a)"
proof -
  from operator_div_correct [OF a b nz]
  obtain q where q: "operator_div a b = Some (Inr q)" "canonical q" "val q = val a sdiv val b"
    by blast
  from operator_mod_correct [OF a b nz]
  obtain r where r: "operator_mod a b = Some (Inr r)" "canonical r" "val r = val a mod \<bar>val b\<bar>"
    by blast
  note t = operator_times_correct [OF q(2) b]
  from operator_plus_correct [OF conjunct1 [OF t] r(2)]
  obtain s where s: "operator_plus (operator_times q b) r = Some s" "canonical s"
    "val s = val a sdiv val b * val b + val a mod \<bar>val b\<bar>"
    using t q(3) r(3) by auto
  have "val a sdiv val b * val b = val a - val a smod val b"
    by (simp add: minus_smod_eq_sdiv_mult)
  then have "val s = val a + (if val a smod val b < 0 then \<bar>val b\<bar> else 0)"
    unfolding s(3) smod_to_mod [OF nz] by simp
  then have "val s = (if val a < 0 \<and> \<not> val b dvd val a then val a + \<bar>val b\<bar> else val a)"
    by (simp add: smod_neg_iff [OF nz])
  moreover have "division_identity_lhs a b = Some (Inr s)"
    by (simp add: division_identity_lhs_def q(1) r(1) s(1))
  ultimately show ?thesis using s(2) by blast
qed

subsection \<open>Every operator returns canonical values\<close>

lemma powMod_loop_returns:
  assumes m: "canonical m" and mnz: "val m \<noteq> 0"
  shows "canonical res \<Longrightarrow> canonical base \<Longrightarrow> canonical e \<Longrightarrow>
    \<exists>r. powMod_loop m res base e = Some (Inr r) \<and> canonical r"
proof (induction "nat \<bar>val e\<bar>" arbitrary: res base e rule: less_induct)
  case less
  show ?case
  proof (cases "isZero e")
    case True
    then have "powMod_loop m res base e = Some (Inr res)"
      by (subst powMod_loop.simps) simp
    with less.prems show ?thesis by simp
  next
    case False
    with less.prems(3) have enz: "val e \<noteq> 0" by (simp add: canonical_isZero)
    from less.prems(3) obtain d0 ds where dg: "digits e = d0 # ds"
      by (cases "digits e") (auto simp: canonical_def)
    from mulMod_correct [OF less.prems(1,2) m mnz] less.prems(1)
    obtain res1 where res1:
      "(if d0 AND 1 \<noteq> 0 then mulMod res base m else Some (Inr res)) = Some (Inr res1)"
      "canonical res1"
      by (cases "d0 AND 1 \<noteq> 0") auto
    from operator_div_correct [OF less.prems(3) BigNum_ll_numeral(5)]
    obtain e1 where e1: "operator_div e (BigNum_ll 2) = Some (Inr e1)" "canonical e1"
      "val e1 = val e sdiv 2"
      by (auto simp: BigNum_ll_numeral)
    from mulMod_correct [OF less.prems(2,2) m mnz]
    obtain base1 where base1: "mulMod base base m = Some (Inr base1)" "canonical base1"
      by blast
    from less.hyps [OF _ res1(2) base1(2) e1(2)] half_abs(1) [OF enz]
    obtain r where r: "powMod_loop m res1 base1 e1 = Some (Inr r)" "canonical r"
      by (auto simp: e1(3))
    have "powMod_loop m res base e = powMod_loop m res1 base1 e1"
      by (subst powMod_loop.simps) (simp add: False dg res1(1) e1(1) base1(1))
    with r show ?thesis by simp
  qed
qed

lemma powMod_returns:
  assumes "canonical a" and "canonical e" and "canonical m" and "val m \<noteq> 0"
  shows "\<exists>r. powMod a e m = Some (Inr r) \<and> canonical r"
proof (cases "isOne m")
  case True
  then show ?thesis by (simp add: powMod_def BigNum_ll_numeral)
next
  case False
  from operator_mod_correct [OF assms(1,3,4)]
  obtain base where base: "operator_mod a m = Some (Inr base)" "canonical base" by blast
  from powMod_loop_returns [OF assms(3,4) BigNum_ll_numeral(3) base(2) assms(2)] False base(1)
  show ?thesis by (simp add: powMod_def)
qed

lemma extendedGCD_returns:
  "canonical a \<Longrightarrow> canonical b \<Longrightarrow>
    \<exists>g x y. extendedGCD a b = Some (Inr (g, x, y)) \<and> canonical g \<and> canonical x \<and> canonical y"
proof (induction "nat \<bar>val b\<bar>" arbitrary: a b rule: less_induct)
  case less
  show ?case
  proof (cases "isZero b")
    case True
    then have "extendedGCD a b = Some (Inr (a, BigNum_ll 1, BigNum_ll 0))"
      by (subst extendedGCD.simps) simp
    with less.prems show ?thesis by (simp add: BigNum_ll_numeral)
  next
    case False
    with less.prems have bnz: "val b \<noteq> 0" by (simp add: canonical_isZero)
    from operator_mod_correct [OF less.prems bnz]
    obtain r where r: "operator_mod a b = Some (Inr r)" "canonical r"
      "val r = val a mod \<bar>val b\<bar>"
      by blast
    from bnz have "nat \<bar>val r\<bar> < nat \<bar>val b\<bar>" by (simp add: r(3))
    from less.hyps [OF this less.prems(2) r(2)]
    obtain g x1 y1 where rec: "extendedGCD b r = Some (Inr (g, x1, y1))"
      "canonical g" "canonical x1" "canonical y1"
      by blast
    from operator_div_correct [OF less.prems bnz]
    obtain q where q: "operator_div a b = Some (Inr q)" "canonical q" by blast
    from operator_minus_correct [OF rec(3) conjunct1 [OF operator_times_correct [OF q(2) rec(4)]]]
    obtain y where y: "operator_minus x1 (operator_times q y1) = Some y" "canonical y"
      by blast
    have "extendedGCD a b = Some (Inr (g, y1, y))"
      by (subst extendedGCD.simps) (simp add: False r(1) rec(1) q(1) y(1))
    with rec(2,4) y(2) show ?thesis by simp
  qed
qed

lemma modInverse_returns:
  assumes a: "canonical a" and m: "canonical m" and mnz: "val m \<noteq> 0"
  shows "modInverse a m = Some (Inl NoInverse) \<or>
         (\<exists>r. modInverse a m = Some (Inr r) \<and> canonical r)"
proof -
  from operator_mod_correct [OF a m mnz]
  obtain am where am: "operator_mod a m = Some (Inr am)" "canonical am" by blast
  from extendedGCD_returns [OF am(2) m]
  obtain g x y where eg: "extendedGCD am m = Some (Inr (g, x, y))" "canonical x" by blast
  from operator_mod_correct [OF eg(2) m mnz]
  obtain r where r: "operator_mod x m = Some (Inr r)" "canonical r"
    "val r = val x mod \<bar>val m\<bar>"
    by blast
  from mnz have "0 \<le> val r" by (simp add: r(3))
  with r(2) have "\<not> is_negative r" by (simp add: canonical_neg_iff)
  with am(1) eg(1) r(1,2) show ?thesis by (simp add: modInverse_def)
qed

text \<open>
  Every value that a constructor or an operator returns is canonical, given canonical
  operands; the constructor from a native integer is the exception at the least 64-bit
  value.
\<close>

lemma canonical_preserved:
  assumes a: "canonical a" and b: "canonical b" and m: "canonical m"
  shows "canonical BigNum_default"
    and "canonical (BigNum_string str)"
    and "sint n \<noteq> - (2 ^ 63) \<Longrightarrow> canonical (BigNum_ll n)"
    and "canonical (operator_neg a)"
    and "\<exists>r. operator_plus a b = Some r \<and> canonical r"
    and "\<exists>r. operator_minus a b = Some r \<and> canonical r"
    and "canonical (operator_times a b)"
    and "operator_div a b = Some (Inr r) \<Longrightarrow> canonical r"
    and "operator_mod a b = Some (Inr r) \<Longrightarrow> canonical r"
    and "addMod a b m = Some (Inr r) \<Longrightarrow> canonical r"
    and "mulMod a b m = Some (Inr r) \<Longrightarrow> canonical r"
    and "powMod a b m = Some (Inr r) \<Longrightarrow> canonical r"
    and "modInverse a m = Some (Inr r) \<Longrightarrow> canonical r"
proof -
  show "canonical BigNum_default"
    by (simp add: BigNum_default_def canonical_def isZero_def)
  show "canonical (BigNum_string str)" by (rule BigNum_string_canonical)
  show "sint n \<noteq> - (2 ^ 63) \<Longrightarrow> canonical (BigNum_ll n)"
    by (simp add: BigNum_ll_correct)
  show "canonical (operator_neg a)" by (rule operator_neg_canonical [OF a])
  show "\<exists>r. operator_plus a b = Some r \<and> canonical r"
    using operator_plus_correct [OF a b] by blast
  show "\<exists>r. operator_minus a b = Some r \<and> canonical r"
    using operator_minus_correct [OF a b] by blast
  show "canonical (operator_times a b)"
    using operator_times_correct [OF a b] by simp
  have zb: "val b = 0 \<Longrightarrow> isZero b" and zm: "val m = 0 \<Longrightarrow> isZero m"
    using b m by (simp_all add: canonical_isZero)
  show "operator_div a b = Some (Inr r) \<Longrightarrow> canonical r"
    using operator_div_correct [OF a b] operator_div_zero [of b a] zb
    by (cases "val b = 0") auto
  show "operator_mod a b = Some (Inr r) \<Longrightarrow> canonical r"
    using operator_mod_correct [OF a b] operator_mod_zero [of b a] zb
    by (cases "val b = 0") auto
  show "addMod a b m = Some (Inr r) \<Longrightarrow> canonical r"
  proof (cases "val m = 0")
    case True
    assume "addMod a b m = Some (Inr r)"
    with operator_plus_correct [OF a b] zm [OF True] show ?thesis
      by (auto simp: addMod_def operator_mod_zero)
  next
    case False
    assume "addMod a b m = Some (Inr r)"
    with addMod_correct [OF a b m False] show ?thesis by auto
  qed
  show "mulMod a b m = Some (Inr r) \<Longrightarrow> canonical r"
  proof (cases "val m = 0")
    case True
    assume "mulMod a b m = Some (Inr r)"
    with zm [OF True] show ?thesis by (simp add: mulMod_def operator_mod_zero)
  next
    case False
    assume "mulMod a b m = Some (Inr r)"
    with mulMod_correct [OF a b m False] show ?thesis by auto
  qed
  show "powMod a b m = Some (Inr r) \<Longrightarrow> canonical r"
  proof (cases "val m = 0")
    case True
    assume "powMod a b m = Some (Inr r)"
    moreover from zm [OF True] have "\<not> isOne m" by (auto simp: isZero_def isOne_def)
    ultimately show ?thesis using zm [OF True] by (simp add: powMod_def operator_mod_zero)
  next
    case False
    assume "powMod a b m = Some (Inr r)"
    with powMod_returns [OF a b m False] show ?thesis by auto
  qed
  show "modInverse a m = Some (Inr r) \<Longrightarrow> canonical r"
  proof (cases "val m = 0")
    case True
    assume "modInverse a m = Some (Inr r)"
    with zm [OF True] show ?thesis by (simp add: modInverse_def operator_mod_zero)
  next
    case False
    assume "modInverse a m = Some (Inr r)"
    with modInverse_returns [OF a m False] show ?thesis by auto
  qed
qed

section \<open>Claims\<close>

text \<open>
  C9. For all BigIntegers \<open>a\<close> and \<open>b\<close> (canonical records), addition and multiplication
  are commutative: \<open>a + b\<close> and \<open>b + a\<close> both return and \<open>a + b == b + a\<close>, and
  \<open>a * b == b * a\<close>. The comparison is \<^verbatim>\<open>operator==\<close>.
\<close>

theorem plus_times_commute:
  assumes "canonical a" and "canonical b"
  shows "(\<exists>r s. operator_plus a b = Some r \<and> operator_plus b a = Some s \<and> operator_eq r s) \<and>
         operator_eq (operator_times a b) (operator_times b a)"
proof -
  from operator_plus_correct [OF assms]
  obtain r where r: "operator_plus a b = Some r" "canonical r" "val r = val a + val b" by blast
  from operator_plus_correct [OF assms(2,1)]
  obtain s where s: "operator_plus b a = Some s" "canonical s" "val s = val b + val a" by blast
  from r s have "r = s" by (intro canonical_inj) simp_all
  with r s have "\<exists>r s. operator_plus a b = Some r \<and> operator_plus b a = Some s \<and> operator_eq r s"
    by (simp add: operator_eq_def)
  moreover have "operator_times a b = operator_times b a"
    using operator_times_correct [OF assms] operator_times_correct [OF assms(2,1)]
    by (intro canonical_inj) (simp_all add: mult.commute)
  then have "operator_eq (operator_times a b) (operator_times b a)"
    by (simp add: operator_eq_def)
  ultimately show ?thesis by blast
qed

theorem plus_times_commute_witness:
  "canonical \<lparr>digits = [7, 9], is_negative = True\<rparr> \<and>
   canonical \<lparr>digits = [5, 0, 1], is_negative = False\<rparr> \<and>
   (\<exists>r s. operator_plus \<lparr>digits = [7, 9], is_negative = True\<rparr>
             \<lparr>digits = [5, 0, 1], is_negative = False\<rparr> = Some r \<and>
          operator_plus \<lparr>digits = [5, 0, 1], is_negative = False\<rparr>
             \<lparr>digits = [7, 9], is_negative = True\<rparr> = Some s \<and> operator_eq r s) \<and>
   operator_eq
     (operator_times \<lparr>digits = [7, 9], is_negative = True\<rparr>
        \<lparr>digits = [5, 0, 1], is_negative = False\<rparr>)
     (operator_times \<lparr>digits = [5, 0, 1], is_negative = False\<rparr>
        \<lparr>digits = [7, 9], is_negative = True\<rparr>)"
proof -
  have a: "canonical \<lparr>digits = [7, 9], is_negative = True\<rparr>"
    by (simp add: canonical_def isZero_def)
  have b: "canonical \<lparr>digits = [5, 0, 1], is_negative = False\<rparr>"
    by (simp add: canonical_def isZero_def)
  from plus_times_commute [OF a b] a b show ?thesis by blast
qed

text \<open>
  C1, as the specification states it, fails: for \<open>a = -7\<close> and \<open>b = 2\<close> the quotient is
  \<open>-3\<close> (truncating division), the remainder is \<open>1\<close> (made non-negative), and
  \<open>(a / b) * b + (a % b)\<close> is \<open>-5\<close>.
\<close>

theorem division_identity_counterexample:
  "canonical \<lparr>digits = [7], is_negative = True\<rparr> \<and>
   canonical \<lparr>digits = [2], is_negative = False\<rparr> \<and>
   \<not> isZero \<lparr>digits = [2], is_negative = False\<rparr> \<and>
   operator_div \<lparr>digits = [7], is_negative = True\<rparr> \<lparr>digits = [2], is_negative = False\<rparr>
     = Some (Inr \<lparr>digits = [3], is_negative = True\<rparr>) \<and>
   operator_mod \<lparr>digits = [7], is_negative = True\<rparr> \<lparr>digits = [2], is_negative = False\<rparr>
     = Some (Inr \<lparr>digits = [1], is_negative = False\<rparr>) \<and>
   division_identity_lhs \<lparr>digits = [7], is_negative = True\<rparr> \<lparr>digits = [2], is_negative = False\<rparr>
     = Some (Inr \<lparr>digits = [5], is_negative = True\<rparr>) \<and>
   \<not> operator_eq \<lparr>digits = [5], is_negative = True\<rparr> \<lparr>digits = [7], is_negative = True\<rparr>"
  by code_simp

text \<open>
  C1, amended. For every BigInteger \<open>a\<close> and every BigInteger \<open>b\<close> that is not zero,
  \<open>(a / b) * b + (a % b)\<close> returns a value. That value is \<open>a\<close> when \<open>a\<close> is not negative
  or \<open>a % b\<close> is zero; otherwise (a negative \<open>a\<close> that is not a multiple of \<open>b\<close>) it is
  \<open>a + |b|\<close>, where \<open>|b|\<close> is \<open>b\<close> with the sign flag cleared.
\<close>

theorem division_identity_amended:
  assumes "canonical a" and "canonical b" and "\<not> isZero b"
  shows "division_identity_lhs a b =
           (if \<not> is_negative a \<or> operator_mod a b = Some (Inr (BigNum_ll 0)) then Some (Inr a)
            else lift (operator_plus a (b\<lparr>is_negative := False\<rparr>))) \<and>
         (\<exists>s. division_identity_lhs a b = Some (Inr s))"
proof -
  from assms have nz: "val b \<noteq> 0" by (simp add: canonical_isZero)
  from division_identity_value [OF assms(1,2) nz]
  obtain s where s: "division_identity_lhs a b = Some (Inr s)" "canonical s"
    "val s = (if val a < 0 \<and> \<not> val b dvd val a then val a + \<bar>val b\<bar> else val a)"
    by blast
  from operator_mod_correct [OF assms(1,2) nz]
  obtain r where r: "operator_mod a b = Some (Inr r)" "canonical r" "val r = val a mod \<bar>val b\<bar>"
    by blast
  have "(r = BigNum_ll 0) = (val r = 0)"
    using canonical_inj [OF r(2) BigNum_ll_numeral(1)] by (auto simp: BigNum_ll_numeral)
  then have dv: "(operator_mod a b = Some (Inr (BigNum_ll 0))) = (val b dvd val a)"
    by (simp add: r(1,3) mod_eq_0_iff_dvd)
  have ng: "is_negative a = (val a < 0)" using assms(1) by (simp add: canonical_neg_iff)
  show ?thesis
  proof (cases "\<not> is_negative a \<or> operator_mod a b = Some (Inr (BigNum_ll 0))")
    case True
    then have "val s = val a" using s(3) ng dv by auto
    with s(2) assms(1) have "s = a" by (intro canonical_inj)
    with True s(1) show ?thesis by simp
  next
    case False
    then have v: "val s = val a + \<bar>val b\<bar>" using s(3) ng dv by auto
    note m = canonical_clear_sign [OF assms(2)]
    from operator_plus_correct [OF assms(1) m(1)]
    obtain t where t: "operator_plus a (b\<lparr>is_negative := False\<rparr>) = Some t" "canonical t"
      "val t = val a + \<bar>val b\<bar>"
      by (auto simp: m(2))
    from s(2) t(2) v t(3) have "s = t" by (intro canonical_inj) simp_all
    with False s(1) t(1) show ?thesis by simp
  qed
qed

theorem division_identity_amended_witness:
  "canonical \<lparr>digits = [7, 1], is_negative = False\<rparr> \<and>
   canonical \<lparr>digits = [5], is_negative = True\<rparr> \<and>
   \<not> isZero \<lparr>digits = [5], is_negative = True\<rparr> \<and>
   division_identity_lhs \<lparr>digits = [7, 1], is_negative = False\<rparr> \<lparr>digits = [5], is_negative = True\<rparr>
     = Some (Inr \<lparr>digits = [7, 1], is_negative = False\<rparr>) \<and>
   canonical \<lparr>digits = [7], is_negative = True\<rparr> \<and>
   canonical \<lparr>digits = [2], is_negative = False\<rparr> \<and>
   \<not> isZero \<lparr>digits = [2], is_negative = False\<rparr> \<and>
   division_identity_lhs \<lparr>digits = [7], is_negative = True\<rparr> \<lparr>digits = [2], is_negative = False\<rparr>
     = lift (operator_plus \<lparr>digits = [7], is_negative = True\<rparr> \<lparr>digits = [2], is_negative = False\<rparr>)"
proof -
  have a1: "canonical \<lparr>digits = [7, 1], is_negative = False\<rparr>"
    and b1: "canonical \<lparr>digits = [5], is_negative = True\<rparr>"
    and z1: "\<not> isZero \<lparr>digits = [5], is_negative = True\<rparr>"
    and a2: "canonical \<lparr>digits = [7], is_negative = True\<rparr>"
    and b2: "canonical \<lparr>digits = [2], is_negative = False\<rparr>"
    and z2: "\<not> isZero \<lparr>digits = [2], is_negative = False\<rparr>"
    by (simp_all add: canonical_def isZero_def)
  have m: "operator_mod \<lparr>digits = [7], is_negative = True\<rparr> \<lparr>digits = [2], is_negative = False\<rparr>
      \<noteq> Some (Inr (BigNum_ll 0))"
    by code_simp
  from division_identity_amended [OF a1 b1 z1] division_identity_amended [OF a2 b2 z2] m
  show ?thesis using a1 b1 z1 a2 b2 z2 by simp
qed

text \<open>
  C4. For every BigInteger \<open>a\<close> and every BigInteger \<open>b\<close> that is not zero, \<open>a % b\<close> returns
  a value \<open>r\<close> with \<open>0 <= r < |b|\<close>: compared with the operators of the class (\<open>|b|\<close> is
  \<open>b\<close> with the sign flag cleared), and as numbers.
\<close>

theorem mod_range:
  assumes "canonical a" and "canonical b" and "\<not> isZero b"
  shows "\<exists>r. operator_mod a b = Some (Inr r) \<and> canonical r \<and>
             operator_le (BigNum_ll 0) r = Some True \<and>
             operator_lt r (b\<lparr>is_negative := False\<rparr>) = Some True \<and>
             0 \<le> val r \<and> val r < \<bar>val b\<bar>"
proof -
  from assms have nz: "val b \<noteq> 0" by (simp add: canonical_isZero)
  from operator_mod_correct [OF assms(1,2) nz]
  obtain r where r: "operator_mod a b = Some (Inr r)" "canonical r" "val r = val a mod \<bar>val b\<bar>"
    by blast
  from nz have rb: "0 \<le> val r" "val r < \<bar>val b\<bar>" by (simp_all add: r(3))
  note m = canonical_clear_sign [OF assms(2)]
  have "operator_le (BigNum_ll 0) r = Some True"
    using rb by (simp add: operator_le_correct [OF BigNum_ll_numeral(1) r(2)] BigNum_ll_numeral)
  moreover have "operator_lt r (b\<lparr>is_negative := False\<rparr>) = Some True"
    using rb by (simp add: operator_lt_correct [OF r(2) m(1)] m(2))
  ultimately show ?thesis using r(1,2) rb by blast
qed

theorem mod_range_witness:
  "canonical \<lparr>digits = [7], is_negative = True\<rparr> \<and>
   canonical \<lparr>digits = [2], is_negative = True\<rparr> \<and>
   \<not> isZero \<lparr>digits = [2], is_negative = True\<rparr> \<and>
   (\<exists>r. operator_mod \<lparr>digits = [7], is_negative = True\<rparr> \<lparr>digits = [2], is_negative = True\<rparr>
           = Some (Inr r) \<and> canonical r \<and>
         operator_le (BigNum_ll 0) r = Some True \<and>
         operator_lt r (\<lparr>digits = [2], is_negative = True\<rparr>\<lparr>is_negative := False\<rparr>) = Some True \<and>
         0 \<le> val r \<and> val r < \<bar>val \<lparr>digits = [2], is_negative = True\<rparr>\<bar>)"
proof -
  have a: "canonical \<lparr>digits = [7], is_negative = True\<rparr>"
    and b: "canonical \<lparr>digits = [2], is_negative = True\<rparr>"
    and z: "\<not> isZero \<lparr>digits = [2], is_negative = True\<rparr>"
    by (simp_all add: canonical_def isZero_def)
  from mod_range [OF a b z] a b z show ?thesis by blast
qed

text \<open>
  C6. Dividing by a BigInteger that is zero, or taking a modulo by it, fails with
  DivisionByZero and returns no value; and \<^verbatim>\<open>addMod\<close>, \<^verbatim>\<open>mulMod\<close>, \<^verbatim>\<open>powMod\<close> and
  \<^verbatim>\<open>modInverse\<close> with a zero modulus fail with DivisionByZero too.
\<close>

theorem division_by_zero:
  assumes "canonical a" and "canonical b" and "isZero z"
  shows "operator_div a z = Some (Inl DivisionByZero) \<and>
         operator_mod a z = Some (Inl DivisionByZero) \<and>
         addMod a b z = Some (Inl DivisionByZero) \<and>
         mulMod a b z = Some (Inl DivisionByZero) \<and>
         powMod a b z = Some (Inl DivisionByZero) \<and>
         modInverse a z = Some (Inl DivisionByZero)"
proof -
  from operator_plus_correct [OF assms(1,2)]
  obtain s where "operator_plus a b = Some s" by blast
  moreover from assms(3) have "\<not> isOne z" by (auto simp: isZero_def isOne_def)
  ultimately show ?thesis
    using assms(3)
    by (simp add: operator_div_zero operator_mod_zero addMod_def mulMod_def powMod_def
        modInverse_def)
qed

theorem division_by_zero_witness:
  "canonical \<lparr>digits = [5], is_negative = False\<rparr> \<and>
   canonical \<lparr>digits = [3], is_negative = True\<rparr> \<and>
   isZero \<lparr>digits = [0], is_negative = False\<rparr> \<and>
   operator_div \<lparr>digits = [5], is_negative = False\<rparr> \<lparr>digits = [0], is_negative = False\<rparr>
     = Some (Inl DivisionByZero) \<and>
   operator_mod \<lparr>digits = [5], is_negative = False\<rparr> \<lparr>digits = [0], is_negative = False\<rparr>
     = Some (Inl DivisionByZero) \<and>
   addMod \<lparr>digits = [5], is_negative = False\<rparr> \<lparr>digits = [3], is_negative = True\<rparr>
     \<lparr>digits = [0], is_negative = False\<rparr> = Some (Inl DivisionByZero) \<and>
   mulMod \<lparr>digits = [5], is_negative = False\<rparr> \<lparr>digits = [3], is_negative = True\<rparr>
     \<lparr>digits = [0], is_negative = False\<rparr> = Some (Inl DivisionByZero) \<and>
   powMod \<lparr>digits = [5], is_negative = False\<rparr> \<lparr>digits = [3], is_negative = True\<rparr>
     \<lparr>digits = [0], is_negative = False\<rparr> = Some (Inl DivisionByZero) \<and>
   modInverse \<lparr>digits = [5], is_negative = False\<rparr> \<lparr>digits = [0], is_negative = False\<rparr>
     = Some (Inl DivisionByZero)"
proof -
  have a: "canonical \<lparr>digits = [5], is_negative = False\<rparr>"
    and b: "canonical \<lparr>digits = [3], is_negative = True\<rparr>"
    and z: "isZero \<lparr>digits = [0], is_negative = False\<rparr>"
    by (simp_all add: canonical_def isZero_def)
  from division_by_zero [OF a b z] a b z show ?thesis by blast
qed

text \<open>
  C7. For every canonical BigInteger \<open>a\<close>, parsing the decimal string that \<^verbatim>\<open>toString\<close>
  renders gives a value equal to \<open>a\<close> (\<^verbatim>\<open>operator==\<close>).
\<close>

theorem parse_render_roundtrip:
  assumes "canonical a"
  shows "operator_eq (BigNum_string (toString a)) a"
  using parse_toString [OF assms] by (simp add: operator_eq_iff)

theorem parse_render_roundtrip_witness:
  "canonical \<lparr>digits = [4, 3, 2, 1], is_negative = True\<rparr> \<and>
   toString \<lparr>digits = [4, 3, 2, 1], is_negative = True\<rparr> = ''-1234'' \<and>
   operator_eq (BigNum_string (toString \<lparr>digits = [4, 3, 2, 1], is_negative = True\<rparr>))
     \<lparr>digits = [4, 3, 2, 1], is_negative = True\<rparr>"
proof -
  have a: "canonical \<lparr>digits = [4, 3, 2, 1], is_negative = True\<rparr>"
    by (simp add: canonical_def isZero_def)
  have s: "toString \<lparr>digits = [4, 3, 2, 1], is_negative = True\<rparr> = ''-1234''"
    by code_simp
  from parse_render_roundtrip [OF a] a s show ?thesis by blast
qed

text \<open>
  C3. For every BigInteger \<open>base\<close>, every exponent that is not negative and every positive
  modulus \<open>m\<close>, \<^verbatim>\<open>powMod\<close> returns what naive repeated multiplication followed by one
  reduction returns (\<open>naive_powMod\<close>, with the exponent as the number of factors), namely
  the canonical value of \<open>base ^ exponent mod m\<close>. When \<open>m\<close> is 1 the result is 0, for any
  base and exponent.
\<close>

theorem powMod_naive:
  assumes "canonical base" and "canonical e" and "canonical m"
    and "\<not> is_negative e" and "0 < val m"
  shows "powMod base e m = naive_powMod base (nat (val e)) m \<and>
         (\<exists>r. powMod base e m = Some (Inr r) \<and> canonical r \<and>
              val r = val base ^ nat (val e) mod val m) \<and>
         (isOne m \<longrightarrow> powMod base e m = Some (Inr (BigNum_ll 0)))"
proof -
  from assms(2,4) have e: "nat \<bar>val e\<bar> = nat (val e)"
    by (simp add: canonical_neg_iff)
  from assms(5) have mnz: "val m \<noteq> 0" and mabs: "\<bar>val m\<bar> = val m" by simp_all
  from powMod_correct [OF assms(1,2,3,5)]
  obtain r where r: "powMod base e m = Some (Inr r)" "canonical r"
    "val r = val base ^ nat (val e) mod val m"
    by (auto simp: e)
  note n = naive_pow_correct [OF assms(1), of "nat (val e)"]
  from operator_mod_correct [OF conjunct1 [OF n] assms(3) mnz]
  obtain s where s: "naive_powMod base (nat (val e)) m = Some (Inr s)" "canonical s"
    "val s = val base ^ nat (val e) mod val m"
    using n by (auto simp: naive_powMod_def mabs)
  from r s have "r = s" by (intro canonical_inj) simp_all
  with r s have eq: "powMod base e m = naive_powMod base (nat (val e)) m" by simp
  have one: "isOne m \<longrightarrow> powMod base e m = Some (Inr (BigNum_ll 0))"
    by (simp add: powMod_def)
  from r have "\<exists>r. powMod base e m = Some (Inr r) \<and> canonical r \<and>
      val r = val base ^ nat (val e) mod val m"
    by blast
  with eq one show ?thesis by blast
qed

theorem powMod_naive_witness:
  "canonical \<lparr>digits = [3], is_negative = True\<rparr> \<and>
   canonical \<lparr>digits = [5], is_negative = False\<rparr> \<and>
   canonical \<lparr>digits = [7], is_negative = False\<rparr> \<and>
   \<not> is_negative \<lparr>digits = [5], is_negative = False\<rparr> \<and>
   0 < val \<lparr>digits = [7], is_negative = False\<rparr> \<and>
   powMod \<lparr>digits = [3], is_negative = True\<rparr> \<lparr>digits = [5], is_negative = False\<rparr>
      \<lparr>digits = [7], is_negative = False\<rparr>
     = naive_powMod \<lparr>digits = [3], is_negative = True\<rparr>
         (nat (val \<lparr>digits = [5], is_negative = False\<rparr>)) \<lparr>digits = [7], is_negative = False\<rparr> \<and>
   powMod \<lparr>digits = [3], is_negative = True\<rparr> \<lparr>digits = [5], is_negative = False\<rparr>
      \<lparr>digits = [7], is_negative = False\<rparr>
     = Some (Inr \<lparr>digits = [2], is_negative = False\<rparr>) \<and>
   canonical \<lparr>digits = [1], is_negative = False\<rparr> \<and>
   0 < val \<lparr>digits = [1], is_negative = False\<rparr> \<and>
   isOne \<lparr>digits = [1], is_negative = False\<rparr> \<and>
   powMod \<lparr>digits = [3], is_negative = True\<rparr> \<lparr>digits = [5], is_negative = False\<rparr>
      \<lparr>digits = [1], is_negative = False\<rparr>
     = Some (Inr (BigNum_ll 0))"
proof -
  have b: "canonical \<lparr>digits = [3], is_negative = True\<rparr>"
    and e: "canonical \<lparr>digits = [5], is_negative = False\<rparr>"
    and m: "canonical \<lparr>digits = [7], is_negative = False\<rparr>"
    and m1: "canonical \<lparr>digits = [1], is_negative = False\<rparr>"
    by (simp_all add: canonical_def isZero_def)
  have p1: "0 < val \<lparr>digits = [1], is_negative = False\<rparr>" by (simp add: val_def)
  have o1: "isOne \<lparr>digits = [1], is_negative = False\<rparr>" by (simp add: isOne_def)
  have n: "\<not> is_negative \<lparr>digits = [5], is_negative = False\<rparr>" by simp
  have p: "0 < val \<lparr>digits = [7], is_negative = False\<rparr>" by (simp add: val_def)
  have v: "powMod \<lparr>digits = [3], is_negative = True\<rparr> \<lparr>digits = [5], is_negative = False\<rparr>
      \<lparr>digits = [7], is_negative = False\<rparr> = Some (Inr \<lparr>digits = [2], is_negative = False\<rparr>)"
    by code_simp
  from powMod_naive [OF b e m n p] powMod_naive [OF b e m1 n p1] b e m n p v m1 p1 o1
  show ?thesis by blast
qed

text \<open>
  C10. For every BigInteger \<open>base\<close>, every negative exponent \<open>e\<close> and every modulus \<open>m\<close>
  with \<open>m >= 1\<close>, \<^verbatim>\<open>powMod\<close> returns, and returns the same value as for the exponent \<open>-e\<close>:
  the sign of the exponent is ignored, the result is \<open>base ^ |e| mod m\<close>.
\<close>

theorem powMod_negative_exponent:
  assumes "canonical base" and "canonical e" and "canonical m"
    and "is_negative e" and "1 \<le> val m"
  shows "\<exists>r. powMod base e m = Some (Inr r) \<and> powMod base (operator_neg e) m = Some (Inr r) \<and>
             canonical r \<and> val r = val base ^ nat (- val e) mod val m"
proof -
  from assms(5) have mpos: "0 < val m" by simp
  note ne = operator_neg_canonical [OF assms(2)]
  from powMod_correct [OF assms(1,2,3) mpos]
  obtain r where r: "powMod base e m = Some (Inr r)" "canonical r"
    "val r = val base ^ nat \<bar>val e\<bar> mod val m"
    by blast
  from powMod_correct [OF assms(1) ne assms(3) mpos]
  obtain s where s: "powMod base (operator_neg e) m = Some (Inr s)" "canonical s"
    "val s = val base ^ nat \<bar>val e\<bar> mod val m"
    by (auto simp: operator_neg_val [OF assms(2)])
  from r s have "r = s" by (intro canonical_inj) simp_all
  moreover from assms(2,4) have "nat \<bar>val e\<bar> = nat (- val e)"
    by (simp add: canonical_neg_iff)
  ultimately show ?thesis using r s by simp
qed

theorem powMod_negative_exponent_witness:
  "canonical \<lparr>digits = [3], is_negative = False\<rparr> \<and>
   canonical \<lparr>digits = [5], is_negative = True\<rparr> \<and>
   canonical \<lparr>digits = [7], is_negative = False\<rparr> \<and>
   is_negative \<lparr>digits = [5], is_negative = True\<rparr> \<and>
   1 \<le> val \<lparr>digits = [7], is_negative = False\<rparr> \<and>
   operator_neg \<lparr>digits = [5], is_negative = True\<rparr> = \<lparr>digits = [5], is_negative = False\<rparr> \<and>
   powMod \<lparr>digits = [3], is_negative = False\<rparr> \<lparr>digits = [5], is_negative = False\<rparr>
      \<lparr>digits = [7], is_negative = False\<rparr>
     = Some (Inr \<lparr>digits = [5], is_negative = False\<rparr>) \<and>
   powMod \<lparr>digits = [3], is_negative = False\<rparr> \<lparr>digits = [5], is_negative = True\<rparr>
      \<lparr>digits = [7], is_negative = False\<rparr>
     = Some (Inr \<lparr>digits = [5], is_negative = False\<rparr>)"
proof -
  have b: "canonical \<lparr>digits = [3], is_negative = False\<rparr>"
    and e: "canonical \<lparr>digits = [5], is_negative = True\<rparr>"
    and m: "canonical \<lparr>digits = [7], is_negative = False\<rparr>"
    by (simp_all add: canonical_def isZero_def)
  have n: "is_negative \<lparr>digits = [5], is_negative = True\<rparr>" by simp
  have p: "1 \<le> val \<lparr>digits = [7], is_negative = False\<rparr>" by (simp add: val_def)
  have o: "operator_neg \<lparr>digits = [5], is_negative = True\<rparr> = \<lparr>digits = [5], is_negative = False\<rparr>"
    by (simp add: operator_neg_def isZero_def)
  have v: "powMod \<lparr>digits = [3], is_negative = False\<rparr> \<lparr>digits = [5], is_negative = False\<rparr>
      \<lparr>digits = [7], is_negative = False\<rparr> = Some (Inr \<lparr>digits = [5], is_negative = False\<rparr>)"
    by code_simp
  from powMod_negative_exponent [OF b e m n p] b e m n p o v show ?thesis by auto
qed

text \<open>
  C2, as the specification states it (for every modulus that is not zero), fails. With
  \<open>m = 1\<close>, \<^verbatim>\<open>modInverse\<close> succeeds with 0, and \<open>(a * 0) mod 1\<close> is 0, not 1. With
  \<open>m = -5\<close> and \<open>a = 2\<close> it succeeds with 2, and \<open>(2 * 2) mod -5\<close> is 4. With \<open>m = -1\<close> it
  fails with NoInverse although \<open>gcd (a mod m) m\<close> is \<open>gcd 0 (-1) = 1\<close>.
\<close>

theorem modInverse_counterexample:
  "modInverse \<lparr>digits = [2], is_negative = False\<rparr> \<lparr>digits = [1], is_negative = False\<rparr>
     = Some (Inr \<lparr>digits = [0], is_negative = False\<rparr>) \<and>
   operator_mod (operator_times \<lparr>digits = [2], is_negative = False\<rparr>
                   \<lparr>digits = [0], is_negative = False\<rparr>) \<lparr>digits = [1], is_negative = False\<rparr>
     = Some (Inr \<lparr>digits = [0], is_negative = False\<rparr>) \<and>
   modInverse \<lparr>digits = [2], is_negative = False\<rparr> \<lparr>digits = [5], is_negative = True\<rparr>
     = Some (Inr \<lparr>digits = [2], is_negative = False\<rparr>) \<and>
   operator_mod (operator_times \<lparr>digits = [2], is_negative = False\<rparr>
                   \<lparr>digits = [2], is_negative = False\<rparr>) \<lparr>digits = [5], is_negative = True\<rparr>
     = Some (Inr \<lparr>digits = [4], is_negative = False\<rparr>) \<and>
   modInverse \<lparr>digits = [2], is_negative = False\<rparr> \<lparr>digits = [1], is_negative = True\<rparr>
     = Some (Inl NoInverse) \<and>
   operator_mod \<lparr>digits = [2], is_negative = False\<rparr> \<lparr>digits = [1], is_negative = True\<rparr>
     = Some (Inr \<lparr>digits = [0], is_negative = False\<rparr>) \<and>
   gcd (0::int) (- 1) = 1 \<and>
   BigNum_ll 1 = \<lparr>digits = [1], is_negative = False\<rparr>"
  by code_simp

text \<open>
  C2, amended. For every BigInteger \<open>a\<close> and every positive modulus \<open>m\<close>, \<^verbatim>\<open>modInverse\<close>
  fails with NoInverse exactly when \<open>gcd (a mod m) m\<close> is not 1, and returns a value exactly
  when it is 1. Whenever it returns \<open>r\<close>, \<open>r\<close> is canonical with \<open>0 <= r < m\<close>, and when
  \<open>m\<close> is greater than 1, \<open>(a * r) % m\<close> is 1. When \<open>m\<close> is 1 the result is 0, and
  \<open>(a * r) % m\<close> is 0.
\<close>

theorem modInverse_amended:
  assumes "canonical a" and "canonical m" and "0 < val m"
  shows "((modInverse a m = Some (Inl NoInverse)) = (gcd (val a mod val m) (val m) \<noteq> 1)) \<and>
         ((\<exists>r. modInverse a m = Some (Inr r)) = (gcd (val a mod val m) (val m) = 1)) \<and>
         (\<forall>r. modInverse a m = Some (Inr r) \<longrightarrow>
            canonical r \<and> 0 \<le> val r \<and> val r < val m \<and>
            operator_mod (operator_times a r) m
              = Some (Inr (if isOne m then BigNum_ll 0 else BigNum_ll 1))) \<and>
         (isOne m \<longrightarrow> modInverse a m = Some (Inr (BigNum_ll 0)))"
proof -
  note c = modInverse_correct [OF assms]
  from assms(3) have mnz: "val m \<noteq> 0" and mabs: "\<bar>val m\<bar> = val m" by simp_all
  have one: "isOne m \<longrightarrow> modInverse a m = Some (Inr (BigNum_ll 0))"
  proof
    assume "isOne m"
    with assms(2) have m1: "val m = 1" by (simp add: canonical_isOne)
    with c obtain r where r: "modInverse a m = Some (Inr r)" "canonical r"
      "0 \<le> val r" "val r < val m"
      by auto
    from r(3,4) m1 have "val r = val (BigNum_ll 0)" by (simp add: BigNum_ll_numeral)
    with r(2) have "r = BigNum_ll 0" by (intro canonical_inj) (simp_all add: BigNum_ll_numeral)
    with r(1) show "modInverse a m = Some (Inr (BigNum_ll 0))" by simp
  qed
  show ?thesis
  proof (cases "gcd (val a mod val m) (val m) = 1")
    case False
    with c one show ?thesis by simp
  next
    case True
    with c obtain r where r: "modInverse a m = Some (Inr r)" "canonical r"
      "(val a * val r) mod val m = 1 mod val m" "0 \<le> val r" "val r < val m"
      by blast
    from mulMod_correct [OF assms(1) r(2) assms(2) mnz]
    obtain p where p: "operator_mod (operator_times a r) m = Some (Inr p)" "canonical p"
      "val p = 1 mod val m"
      by (auto simp: mulMod_def mabs r(3))
    let ?t = "if isOne m then BigNum_ll 0 else BigNum_ll 1"
    have "canonical ?t \<and> val ?t = 1 mod val m"
      using assms(2,3) by (simp add: canonical_isOne BigNum_ll_numeral mod_pos_pos_trivial)
    with p(2,3) have "p = ?t" by (intro canonical_inj) simp_all
    with r p(1) True one show ?thesis by simp
  qed
qed

theorem modInverse_amended_witness:
  "canonical \<lparr>digits = [3, 2, 1], is_negative = False\<rparr> \<and>
   canonical \<lparr>digits = [9, 0, 0, 1], is_negative = False\<rparr> \<and>
   0 < val \<lparr>digits = [9, 0, 0, 1], is_negative = False\<rparr> \<and>
   modInverse \<lparr>digits = [3, 2, 1], is_negative = False\<rparr> \<lparr>digits = [9, 0, 0, 1], is_negative = False\<rparr>
     = Some (Inr \<lparr>digits = [4, 8, 4], is_negative = False\<rparr>) \<and>
   gcd (val \<lparr>digits = [3, 2, 1], is_negative = False\<rparr>
          mod val \<lparr>digits = [9, 0, 0, 1], is_negative = False\<rparr>)
       (val \<lparr>digits = [9, 0, 0, 1], is_negative = False\<rparr>) = 1 \<and>
   operator_mod (operator_times \<lparr>digits = [3, 2, 1], is_negative = False\<rparr>
                   \<lparr>digits = [4, 8, 4], is_negative = False\<rparr>)
                \<lparr>digits = [9, 0, 0, 1], is_negative = False\<rparr>
     = Some (Inr (BigNum_ll 1)) \<and>
   canonical \<lparr>digits = [1], is_negative = False\<rparr> \<and>
   0 < val \<lparr>digits = [1], is_negative = False\<rparr> \<and>
   isOne \<lparr>digits = [1], is_negative = False\<rparr> \<and>
   modInverse \<lparr>digits = [3, 2, 1], is_negative = False\<rparr> \<lparr>digits = [1], is_negative = False\<rparr>
     = Some (Inr (BigNum_ll 0)) \<and>
   operator_mod (operator_times \<lparr>digits = [3, 2, 1], is_negative = False\<rparr> (BigNum_ll 0))
                \<lparr>digits = [1], is_negative = False\<rparr>
     = Some (Inr (BigNum_ll 0))"
proof -
  have a: "canonical \<lparr>digits = [3, 2, 1], is_negative = False\<rparr>"
    and m: "canonical \<lparr>digits = [9, 0, 0, 1], is_negative = False\<rparr>"
    and m1: "canonical \<lparr>digits = [1], is_negative = False\<rparr>"
    by (simp_all add: canonical_def isZero_def)
  have p1: "0 < val \<lparr>digits = [1], is_negative = False\<rparr>" by (simp add: val_def)
  have o1: "isOne \<lparr>digits = [1], is_negative = False\<rparr>" by (simp add: isOne_def)
  have p: "0 < val \<lparr>digits = [9, 0, 0, 1], is_negative = False\<rparr>" by (simp add: val_def)
  have v: "modInverse \<lparr>digits = [3, 2, 1], is_negative = False\<rparr>
      \<lparr>digits = [9, 0, 0, 1], is_negative = False\<rparr>
      = Some (Inr \<lparr>digits = [4, 8, 4], is_negative = False\<rparr>)"
    by code_simp
  have o: "\<not> isOne \<lparr>digits = [9, 0, 0, 1], is_negative = False\<rparr>"
    by (simp add: isOne_def)
  from modInverse_amended [OF a m p] modInverse_amended [OF a m1 p1] a m p v o m1 p1 o1
  show ?thesis by auto
qed

text \<open>
  C5 holds for operands that are not negative (lemma \<open>extendedGCD_nonneg\<close>), but not for
  all operands: for \<open>a = -5\<close> and \<open>b = 2\<close> \<^verbatim>\<open>extendedGCD\<close> returns \<open>(1, 1, 2)\<close>, and
  \<open>a * 1 + b * 2\<close> is \<open>-1\<close>, not the returned gcd 1. The recursion takes \<open>a % b\<close>, which
  is made non-negative, while the back-substitution uses the truncated quotient \<open>a / b\<close>.
\<close>

theorem extendedGCD_bezout_fails:
  "extendedGCD \<lparr>digits = [5], is_negative = True\<rparr> \<lparr>digits = [2], is_negative = False\<rparr>
     = Some (Inr (\<lparr>digits = [1], is_negative = False\<rparr>,
                  \<lparr>digits = [1], is_negative = False\<rparr>,
                  \<lparr>digits = [2], is_negative = False\<rparr>)) \<and>
   bezout_lhs \<lparr>digits = [5], is_negative = True\<rparr> \<lparr>digits = [1], is_negative = False\<rparr>
              \<lparr>digits = [2], is_negative = False\<rparr> \<lparr>digits = [2], is_negative = False\<rparr>
     = Some \<lparr>digits = [1], is_negative = True\<rparr> \<and>
   operator_ne \<lparr>digits = [1], is_negative = True\<rparr> \<lparr>digits = [1], is_negative = False\<rparr>"
  by code_simp

text \<open>
  C8 holds for every constructor and operator (lemma \<open>canonical_preserved\<close>) except for
  the constructor from a native integer at the least 64-bit value: negating it gives the
  same value back, so it is neither 0 nor positive, no digit is pushed, and the record has
  an empty digit vector and a set sign flag.
\<close>

theorem BigNum_ll_least_value:
  "BigNum_ll (- 9223372036854775808) = \<lparr>digits = [], is_negative = True\<rparr> \<and>
   sint (- 9223372036854775808 :: 64 word) = - (2 ^ 63) \<and>
   digits (BigNum_ll (- 9223372036854775808)) = []"
  by code_simp

end
